theory Spec2Isabelle
  imports Complex_Main "HOL-Library.AList" "HOL-Library.Log_Nat"
begin

section \<open>JavaScript primitives used by the front end\<close>

text \<open>
  JavaScript strings are modelled as \<open>string\<close>. A string is falsy exactly when it is
  empty; \<open>undefined\<close> and \<open>null\<close> are \<open>None\<close>.
\<close>

definition js_includes :: "'a list \<Rightarrow> 'a \<Rightarrow> bool" where
  \<comment> \<open>\<open>Array.prototype.includes\<close>\<close>
  "js_includes xs x = (x \<in> set xs)"

definition startsWith :: "string \<Rightarrow> string \<Rightarrow> bool" where
  \<comment> \<open>\<open>String.prototype.startsWith\<close>\<close>
  "startsWith s p = (take (length p) s = p)"

definition digit_char :: "nat \<Rightarrow> char" where
  "digit_char d = char_of (48 + d)"

fun string_of_nat :: "nat \<Rightarrow> string" where
  \<comment> \<open>the decimal text a template literal produces for a non-negative integer\<close>
  "string_of_nat n =
     (if n < 10 then [digit_char n] else string_of_nat (n div 10) @ [digit_char (n mod 10)])"

declare string_of_nat.simps [simp del]

section \<open>The App component (src/unnamed/part\_000): running the pipeline\<close>

record form_data =
  jiraId :: string
  repoUrl :: string
  actions :: "string list"
  model :: string

text \<open>The payload \<open>api.analyzeTicket\<close> posts to \<open>/analyze\<close>.\<close>

record analyze_request =
  ticket_id :: string
  action :: string
  github_repo :: "string option"
  github_pr :: "string option"
  req_model :: "string option"

text \<open>The fields of the analyze response that the App reads for the Workflow tab.\<close>

record agent_info =
  agent_name :: string
  agent_status :: string
  started_at :: "string option"
  completed_at :: "string option"

record analyze_response =
  request_id :: string
  agents :: "agent_info list option"

text \<open>The React state of \<open>App\<close> that \<open>runPipeline\<close> writes.\<close>

record app_state =
  view :: string
  formData :: form_data
  apiResponse :: "analyze_response option"
  isLoading :: bool
  executionStatus :: string
  currentAgent :: "string option"
  error :: "string option"
  toast :: "(string \<times> string) option"

definition Action_values :: "string list" where
  "Action_values =
     [''analyze_requirements'', ''generate_code'', ''generate_tests'', ''full_pipeline'']"

definition agent_ids :: "string list" where
  \<comment> \<open>the ids of the \<open>agents\<close> array, in its order\<close>
  "agent_ids = [''req'', ''code'', ''test'']"

definition showToast :: "string \<Rightarrow> string \<Rightarrow> app_state \<Rightarrow> app_state" where
  "showToast message type st = st\<lparr>toast := Some (message, type)\<rparr>"

definition runPipeline_action_000 :: "string list \<Rightarrow> string" where
  \<comment> \<open>part\_000, lines 402-419: the action chosen from the selected agents\<close>
  "runPipeline_action_000 sel =
     (if js_includes sel ''req'' \<and> js_includes sel ''code'' \<and> js_includes sel ''test''
        then ''full_pipeline''
      else if js_includes sel ''req'' \<and> js_includes sel ''code'' then ''generate_code''
      else if js_includes sel ''req'' \<and> js_includes sel ''test'' then ''generate_tests''
      else if js_includes sel ''code'' \<and> js_includes sel ''test'' then ''full_pipeline''
      else if js_includes sel ''code'' then ''generate_code''
      else if js_includes sel ''test'' then ''generate_tests''
      else if js_includes sel ''req'' then ''analyze_requirements''
      else ''analyze_requirements'')"

definition runPipeline_action_001 :: "string list \<Rightarrow> string" where
  \<comment> \<open>part\_001, lines 97-107\<close>
  "runPipeline_action_001 sel =
     (let hasReq = js_includes sel ''req'';
          hasCode = js_includes sel ''code'';
          hasTest = js_includes sel ''test''
      in if hasReq \<and> hasCode \<and> hasTest then ''full_pipeline''
         else if hasCode \<and> \<not> hasTest then ''generate_code''
         else if hasTest \<and> \<not> hasCode then ''generate_tests''
         else ''analyze_requirements'')"

definition analyze_payload_000 :: "nat \<Rightarrow> form_data \<Rightarrow> analyze_request" where
  \<comment> \<open>the argument of \<open>api.analyzeTicket\<close> in part\_000; \<open>now\<close> is \<open>Date.now()\<close>\<close>
  "analyze_payload_000 now fd =
     \<lparr>ticket_id = (if jiraId fd \<noteq> [] then jiraId fd else ''MANUAL-'' @ string_of_nat now),
      action = runPipeline_action_000 (actions fd),
      github_repo = (if repoUrl fd \<noteq> [] then Some (repoUrl fd) else None),
      github_pr = None,
      req_model = Some (model fd)\<rparr>"

definition analyze_payload_001 :: "nat \<Rightarrow> form_data \<Rightarrow> analyze_request" where
  \<comment> \<open>the argument of \<open>api.analyzeTicket\<close> in part\_001, whose form has no model field\<close>
  "analyze_payload_001 now fd =
     \<lparr>ticket_id = (if jiraId fd \<noteq> [] then jiraId fd else ''MANUAL-'' @ string_of_nat now),
      action = runPipeline_action_001 (actions fd),
      github_repo = (if repoUrl fd \<noteq> [] then Some (repoUrl fd) else None),
      github_pr = None,
      req_model = None\<rparr>"

text \<open>
  \<open>runPipeline\<close> of part\_000, lines 391-448. The awaited \<open>api.analyzeTicket\<close> is the
  parameter \<open>api\<close>: \<open>Inr\<close> the response, \<open>Inl\<close> the message of the error it threw.
  The result is the React state after the function has finished, and the list of
  requests it posted.
\<close>

definition runPipeline_000 ::
  "nat \<Rightarrow> (analyze_request \<Rightarrow> string option + analyze_response) \<Rightarrow> app_state
    \<Rightarrow> app_state \<times> analyze_request list" where
  "runPipeline_000 now api st =
     (let fd = formData st in
      if (jiraId fd = [] \<and> repoUrl fd = []) \<or> length (actions fd) = 0
      then (showToast ''Please provide input and select at least one agent'' ''error'' st, [])
      else
        let st1 = st\<lparr>view := ''executing'', isLoading := True,
                      executionStatus := ''running'', error := None\<rparr>;
            selectedAgents = filter (\<lambda>a. js_includes (actions fd) a) agent_ids;
            st2 = foldl (\<lambda>s a. s\<lparr>currentAgent := Some a\<rparr>) st1 selectedAgents;
            payload = analyze_payload_000 now fd
        in case api payload of
             Inr response \<Rightarrow>
               (showToast ''Pipeline completed successfully!'' ''success''
                  (st2\<lparr>apiResponse := Some response, executionStatus := ''completed'',
                       currentAgent := None, view := ''result''\<rparr>)
                  \<lparr>isLoading := False\<rparr>,
                [payload])
           | Inl msg \<Rightarrow>
               (let m = (case msg of Some t \<Rightarrow> (if t \<noteq> [] then t else ''Pipeline execution failed'')
                                   | None \<Rightarrow> ''Pipeline execution failed'')
                in (showToast m ''error'' (st2\<lparr>error := Some m, executionStatus := ''error''\<rparr>)
                      \<lparr>isLoading := False\<rparr>,
                    [payload])))"

section \<open>The Workflow tab (part\_000, lines 1035-1056)\<close>

record workflow_event =
  event :: string
  node :: string
  timestamp :: string

definition or_now :: "string option \<Rightarrow> string \<Rightarrow> string" where
  \<comment> \<open>\<open>t || new Date().toISOString()\<close>\<close>
  "or_now t now = (case t of Some s \<Rightarrow> (if s \<noteq> [] then s else now) | None \<Rightarrow> now)"

text \<open>
  The two events the \<open>flatMap\<close> callback returns for one agent; \<open>now1\<close> and \<open>now2\<close>
  are the two readings of the clock.
\<close>

definition agent_events :: "string \<Rightarrow> string \<Rightarrow> agent_info \<Rightarrow> workflow_event list" where
  "agent_events now1 now2 agent =
     [\<lparr>event = ''node_start'', node = agent_name agent,
       timestamp = or_now (started_at agent) now1\<rparr>,
      \<lparr>event = (if agent_status agent = ''completed'' then ''node_complete'' else ''node_error''),
       node = agent_name agent,
       timestamp = or_now (completed_at agent) now2\<rparr>]"

fun flatMap_events :: "(nat \<Rightarrow> string) \<Rightarrow> nat \<Rightarrow> agent_info list \<Rightarrow> workflow_event list" where
  \<comment> \<open>\<open>clock k\<close> is the k-th reading of \<open>new Date().toISOString()\<close>\<close>
  "flatMap_events clock idx [] = []"
| "flatMap_events clock idx (agent # rest) =
     agent_events (clock (2 * idx)) (clock (2 * idx + 1)) agent
       @ flatMap_events clock (Suc idx) rest"

definition workflow_events :: "(nat \<Rightarrow> string) \<Rightarrow> analyze_response \<Rightarrow> workflow_event list" where
  \<comment> \<open>\<open>(apiResponse.agents || []).flatMap(...)\<close>\<close>
  "workflow_events clock response =
     flatMap_events clock 0 (case agents response of Some as \<Rightarrow> as | None \<Rightarrow> [])"

text \<open>
  The ordering property of an event list: for each \<open>node_start\<close> of a stage, the events
  after it and before the next \<open>node_start\<close> hold exactly one \<open>node_complete\<close> or
  \<open>node_error\<close> event, and that event names the same stage.
\<close>

definition is_end :: "workflow_event \<Rightarrow> bool" where
  "is_end e = (event e = ''node_complete'' \<or> event e = ''node_error'')"

fun start_answered :: "workflow_event list \<Rightarrow> bool" where
  "start_answered [] = True"
| "start_answered (e # es) =
     ((if event e = ''node_start''
       then map node (filter is_end (takeWhile (\<lambda>x. event x \<noteq> ''node_start'') es)) = [node e]
       else True)
      \<and> start_answered es)"

section \<open>TraceabilityMatrix (src/ui/src/components/TraceabilityMatrix.jsx)\<close>

text \<open>
  The component builds \<open>map\<close>, a plain JavaScript object keyed by requirement id.
  A property read \<open>map[k]\<close> finds the object's own properties first and then those
  it inherits, so the model keeps both: \<open>own\<close>, the own properties in insertion
  order, and \<open>proto\<close>, the entry that an assignment to the key \<open>__proto__\<close> has
  installed as the prototype (\<open>None\<close>: still \<open>Object.prototype\<close>). Reading
  \<open>codeChanges\<close> or \<open>tests\<close> on an inherited value that has no such field gives
  \<open>undefined\<close>, and calling \<open>push\<close> on it throws a \<open>TypeError\<close>.
\<close>

datatype js_error = TypeError

record requirement =
  req_id :: string
  description :: string
  priority :: string

record code_change =
  change_file :: string
  implements_requirements :: "string list option"

record test_case =
  test_name :: string
  covers_requirement :: "string option"

record entry =
  requirement :: requirement
  codeChanges :: "code_change list"
  tests :: "test_case list"
  status :: string

record js_map =
  own :: "(string \<times> entry) list"
  proto :: "entry option"

definition Object_prototype_names :: "string list" where
  \<comment> \<open>the properties of \<open>Object.prototype\<close> other than the accessor \<open>__proto__\<close>\<close>
  "Object_prototype_names =
     [''constructor'', ''__defineGetter__'', ''__defineSetter__'', ''hasOwnProperty'',
      ''__lookupGetter__'', ''__lookupSetter__'', ''isPrototypeOf'',
      ''propertyIsEnumerable'', ''toString'', ''valueOf'', ''toLocaleString'']"


definition entry_field_names :: "string list" where
  "entry_field_names = [''requirement'', ''codeChanges'', ''tests'', ''status'']"

definition set_prop :: "string \<Rightarrow> entry \<Rightarrow> js_map \<Rightarrow> js_map" where
  \<comment> \<open>\<open>map[k] = v\<close>: a new own property goes last, an old one keeps its place\<close>
  "set_prop k v m =
     (if k = ''__proto__'' then m\<lparr>proto := Some v\<rparr>
      else m\<lparr>own := AList.update k v (own m)\<rparr>)"

definition init_requirements :: "requirement list \<Rightarrow> js_map" where
  \<comment> \<open>lines 38-45\<close>
  "init_requirements reqs =
     foldl (\<lambda>m req. set_prop (req_id req)
                       \<lparr>requirement = req, codeChanges = [], tests = [], status = ''uncovered''\<rparr> m)
       \<lparr>own = [], proto = None\<rparr> reqs"

text \<open>
  \<open>if (map[k]) { map[k].field.push(x) }\<close>, with \<open>push\<close> the update of the entry. An own
  entry is updated. Of the inherited values, only the prototype entry itself (read
  through \<open>__proto__\<close>) has the field; every other inherited value is truthy and has
  not, so the call throws. A key that is not found at all is skipped.
\<close>

definition push_at :: "(entry \<Rightarrow> entry) \<Rightarrow> string \<Rightarrow> js_map \<Rightarrow> js_error + js_map" where
  "push_at push k m =
     (case map_of (own m) k of
        Some e \<Rightarrow> Inr (m\<lparr>own := AList.update k (push e) (own m)\<rparr>)
      | None \<Rightarrow>
          if k = ''__proto__'' then
            (case proto m of Some e \<Rightarrow> Inr (m\<lparr>proto := Some (push e)\<rparr>) | None \<Rightarrow> Inl TypeError)
          else if proto m \<noteq> None \<and> k \<in> set entry_field_names then Inl TypeError
          else if k \<in> set Object_prototype_names then Inl TypeError
          else Inr m)"

fun link_requirements :: "code_change \<Rightarrow> string list \<Rightarrow> js_map \<Rightarrow> js_error + js_map" where
  \<comment> \<open>\<open>implementsReqs.forEach\<close>, lines 50-54\<close>
  "link_requirements change [] m = Inr m"
| "link_requirements change (reqId # rest) m =
     (case push_at (\<lambda>e. e\<lparr>codeChanges := codeChanges e @ [change]\<rparr>) reqId m of
        Inl err \<Rightarrow> Inl err
      | Inr m' \<Rightarrow> link_requirements change rest m')"

definition implementsReqs :: "code_change \<Rightarrow> string list" where
  \<comment> \<open>\<open>change.implements_requirements || []\<close>, line 49\<close>
  "implementsReqs change = (case implements_requirements change of Some rs \<Rightarrow> rs | None \<Rightarrow> [])"

fun link_codeChanges :: "code_change list \<Rightarrow> js_map \<Rightarrow> js_error + js_map" where
  \<comment> \<open>\<open>codeChanges.forEach\<close>, lines 48-55\<close>
  "link_codeChanges [] m = Inr m"
| "link_codeChanges (change # rest) m =
     (case link_requirements change (implementsReqs change) m of
        Inl err \<Rightarrow> Inl err
      | Inr m' \<Rightarrow> link_codeChanges rest m')"

fun link_tests :: "test_case list \<Rightarrow> js_map \<Rightarrow> js_error + js_map" where
  \<comment> \<open>\<open>tests.forEach\<close>, lines 58-63\<close>
  "link_tests [] m = Inr m"
| "link_tests (t # rest) m =
     (case covers_requirement t of
        None \<Rightarrow> link_tests rest m
      | Some coversReq \<Rightarrow>
          if coversReq = [] then link_tests rest m
          else (case push_at (\<lambda>e. e\<lparr>tests := tests e @ [t]\<rparr>) coversReq m of
                  Inl err \<Rightarrow> Inl err
                | Inr m' \<Rightarrow> link_tests rest m'))"

definition calc_status :: "entry \<Rightarrow> entry" where
  \<comment> \<open>lines 66-78\<close>
  "calc_status e =
     (let hasCode = length (codeChanges e) > 0;
          hasTests = length (tests e) > 0
      in if hasCode \<and> hasTests then e\<lparr>status := ''fully_covered''\<rparr>
         else if hasCode \<or> hasTests then e\<lparr>status := ''partially_covered''\<rparr>
         else e\<lparr>status := ''uncovered''\<rparr>)"

definition traceabilityData ::
  "requirement list \<Rightarrow> code_change list \<Rightarrow> test_case list \<Rightarrow> js_error + js_map" where
  "traceabilityData requirements changes ts =
     (case link_codeChanges changes (init_requirements requirements) of
        Inl err \<Rightarrow> Inl err
      | Inr m1 \<Rightarrow>
          (case link_tests ts m1 of
             Inl err \<Rightarrow> Inl err
           | Inr m2 \<Rightarrow> Inr (m2\<lparr>own := map (\<lambda>(k, e). (k, calc_status e)) (own m2)\<rparr>)))"

text \<open>
  \<open>Object.values\<close> lists the own properties: the keys that are array indices (canonical
  decimal numerals below \<open>2^32 - 1\<close>) in ascending order, then the other keys in
  insertion order.
\<close>

fun nat_of_digits :: "nat \<Rightarrow> string \<Rightarrow> nat" where
  "nat_of_digits acc [] = acc"
| "nat_of_digits acc (c # cs) = nat_of_digits (10 * acc + (of_char c - 48)) cs"

definition is_digit :: "char \<Rightarrow> bool" where
  "is_digit c = (48 \<le> (of_char c :: nat) \<and> (of_char c :: nat) \<le> 57)"




text \<open>
  The percentages are computed in double precision: \<open>Math.round((a / t) * 100)\<close>
  divides, rounds the quotient to the nearest double, multiplies by 100, rounds the
  product to the nearest double, and only then rounds to an integer. The model
  follows these three roundings on rational numbers.

  \<open>to_double x\<close> is the double nearest to a rational \<open>x\<close>, ties going to the even
  mantissa: with \<open>2^e \<le> x < 2^(e+1)\<close> the doubles around \<open>x\<close> are the multiples of
  \<open>2^(e-52)\<close>. The exponent is not bounded in the model; the quotients and products
  that occur here, of counts below \<open>2^32\<close> (the longest JavaScript array), are far
  from the overflow and the subnormal range of the format, and the counts themselves
  are doubles exactly. \<open>Math.round\<close> takes a double to the integer \<open>\<lfloor>x + 1/2\<rfloor>\<close>.
\<close>

definition round_half_even :: "rat \<Rightarrow> int" where
  "round_half_even r =
     (let f = \<lfloor>r\<rfloor>; d = r - of_int f
      in if d < 1 / 2 then f else if 1 / 2 < d then f + 1 else if even f then f else f + 1)"

definition ilog2 :: "rat \<Rightarrow> int" where
  \<comment> \<open>for \<open>0 < x\<close>, the exponent \<open>e\<close> with \<open>2^e \<le> x < 2^(e+1)\<close>\<close>
  "ilog2 x = (if 1 \<le> x then bitlen \<lfloor>x\<rfloor> - 1 else - bitlen (\<lceil>1 / x\<rceil> - 1))"

definition to_double :: "rat \<Rightarrow> rat" where
  "to_double x =
     (if x \<le> 0 then 0
      else let u = 2 powi (ilog2 x - 52) in of_int (round_half_even (x / u)) * u)"

definition Math_round :: "rat \<Rightarrow> int" where
  "Math_round x = \<lfloor>x + 1 / 2\<rfloor>"

definition js_round_percent :: "nat \<Rightarrow> nat \<Rightarrow> nat" where
  \<comment> \<open>\<open>Math.round((a / t) * 100)\<close> for counts \<open>a\<close> and \<open>t > 0\<close>\<close>
  "js_round_percent a t = nat (Math_round (to_double (to_double (of_nat a / of_nat t) * 100)))"


text \<open>
  What the matrix is meant to hold, stated on the three input lists alone. A code
  change is linked to the requirement \<open>k\<close> once for every time \<open>k\<close> occurs in its
  \<open>implements_requirements\<close>; a test is linked to \<open>k\<close> when its \<open>covers_requirement\<close>
  is \<open>k\<close>, except that the empty string is falsy and links nothing. When several
  requirements share an id, the entry shows the last of them.
\<close>

definition linked_changes :: "string \<Rightarrow> code_change list \<Rightarrow> code_change list" where
  "linked_changes k changes =
     concat (map (\<lambda>change. map (\<lambda>reqId. change) (filter (\<lambda>reqId. reqId = k) (implementsReqs change)))
               changes)"

definition linked_tests :: "string \<Rightarrow> test_case list \<Rightarrow> test_case list" where
  "linked_tests k ts = filter (\<lambda>t. covers_requirement t = Some k \<and> k \<noteq> []) ts"


section \<open>analyzeStream (src/unnamed/part\_002, lines 46-128): the event-stream reader\<close>

fun js_split :: "char \<Rightarrow> string \<Rightarrow> string list" where
  \<comment> \<open>\<open>s.split(c)\<close> for a one-character separator: never empty, \<open>''''.split(c) = ['''']\<close>\<close>
  "js_split c [] = [[]]"
| "js_split c (x # xs) =
     (if x = c then [] # js_split c xs
      else (case js_split c xs of [] \<Rightarrow> [[x]] | l # ls \<Rightarrow> (x # l) # ls))"

definition is_js_space :: "char \<Rightarrow> bool" where
  \<comment> \<open>the white space and line terminators that \<open>trim\<close> removes, among the first 256 code units\<close>
  "is_js_space c = (c \<in> set [CHR 0x09, CHR 0x0A, CHR 0x0B, CHR 0x0C, CHR 0x0D, CHR 0x20, CHR 0xA0])"

definition js_trim :: "string \<Rightarrow> string" where
  "js_trim s = rev (dropWhile is_js_space (rev (dropWhile is_js_space s)))"

text \<open>
  The \<open>for (const line of lines)\<close> loop of one chunk, lines 104-117. \<open>parse\<close> is
  \<open>JSON.parse\<close> (\<open>None\<close>: it throws, and the line is skipped with a warning);
  \<open>currentEvent\<close> is the event type seen last (\<open>None\<close>: \<open>null\<close>). The result lists the
  calls \<open>onEvent(parsed, currentEvent)\<close> in order.
\<close>

fun sse_lines :: "(string \<Rightarrow> 'a option) \<Rightarrow> string option \<Rightarrow> string list
    \<Rightarrow> ('a \<times> string option) list" where
  "sse_lines parse currentEvent [] = []"
| "sse_lines parse currentEvent (line # rest) =
     (if startsWith line ''event: '' then sse_lines parse (Some (js_trim (drop 7 line))) rest
      else if startsWith line ''data: '' then
        (case parse (drop 6 line) of
           Some parsed \<Rightarrow> (parsed, currentEvent) # sse_lines parse currentEvent rest
         | None \<Rightarrow> sse_lines parse currentEvent rest)
      else sse_lines parse currentEvent rest)"

text \<open>
  One turn of the \<open>while (true)\<close> loop for a chunk that \<open>reader.read()\<close> delivered
  (decoded): the state is the buffer and the calls of \<open>onEvent\<close> made so far.
  \<open>currentEvent\<close> is declared inside the loop body (line 102), so every chunk starts
  from \<open>null\<close>.
\<close>

definition sse_chunk :: "(string \<Rightarrow> 'a option) \<Rightarrow> string \<times> ('a \<times> string option) list \<Rightarrow> string
    \<Rightarrow> string \<times> ('a \<times> string option) list" where
  "sse_chunk parse st chunk =
     (let buffer = fst st @ chunk;
          lines = js_split CHR 0x0A buffer
      in (last lines, snd st @ sse_lines parse None (butlast lines)))"

definition analyzeStream_events :: "(string \<Rightarrow> 'a option) \<Rightarrow> string list \<Rightarrow> ('a \<times> string option) list" where
  \<comment> \<open>the calls of \<open>onEvent\<close> for a response body that arrives as the given chunks\<close>
  "analyzeStream_events parse chunks = snd (foldl (sse_chunk parse) ([], []) chunks)"

text \<open>
  For the analysis of the reader: the lines of a text that a newline ends, the
  unfinished rest after the last newline, and the value a single line delivers.
\<close>

definition complete_lines :: "string \<Rightarrow> string list" where
  "complete_lines s = butlast (js_split CHR 0x0A s)"

definition pending_line :: "string \<Rightarrow> string" where
  "pending_line s = last (js_split CHR 0x0A s)"

definition data_of :: "(string \<Rightarrow> 'a option) \<Rightarrow> string \<Rightarrow> 'a option" where
  "data_of parse line =
     (if startsWith line ''event: '' then None
      else if startsWith line ''data: '' then parse (drop 6 line) else None)"

section \<open>DiffViewer (src/ui/src/components/DiffViewer.jsx): parsing and writing a patch\<close>

text \<open>
  Texts are lists of 8-bit characters. Numbers are natural numbers, which is what
  \<open>parseInt\<close> returns on a numeral below \<open>2^53\<close>; for a longer numeral JavaScript
  rounds to a double, which the model does not follow.
\<close>

record diff_line =
  content :: string
  line_type :: string

record hunk =
  oldStart :: nat
  oldCount :: nat
  newStart :: nat
  newCount :: nat
  header :: string
  lines :: "diff_line list"

record diff_file =
  oldPath :: string
  newPath :: string
  hunks :: "hunk list"
  additions :: nat
  deletions :: nat

subsection \<open>The two regular expressions of parseDiff\<close>

definition is_line_terminator :: "char \<Rightarrow> bool" where
  \<comment> \<open>the 8-bit characters that \<open>.\<close> does not match: line feed and carriage return\<close>
  "is_line_terminator c = (c = CHR 0x0A \<or> c = CHR 0x0D)"

definition dot_run :: "string \<Rightarrow> string" where
  \<comment> \<open>the longest prefix that \<open>.*\<close> can match\<close>
  "dot_run s = takeWhile (\<lambda>c. \<not> is_line_terminator c) s"

fun split_at_last :: "string \<Rightarrow> string \<Rightarrow> (string \<times> string) option" where
  \<comment> \<open>cut \<open>s\<close> at the last occurrence of \<open>sep\<close> that leaves a non-empty rest\<close>
  "split_at_last sep [] = None"
| "split_at_last sep (c # cs) =
     (case split_at_last sep cs of
        Some (a, b) \<Rightarrow> Some (c # a, b)
      | None \<Rightarrow>
          if startsWith (c # cs) sep \<and> length sep < length (c # cs)
          then Some ([], drop (length sep) (c # cs)) else None)"

definition match_git_at :: "string \<Rightarrow> (string \<times> string) option" where
  \<comment> \<open>\<open>/diff --git a\/(.+) b\/(.+)/\<close> matched at the start of \<open>s\<close>: both groups are
      greedy, so the first takes all up to the last \<open>b/\<close> separator that leaves a
      non-empty second group\<close>
  "match_git_at s =
     (if startsWith s ''diff --git a/'' then
        (case dot_run (drop 13 s) of
           [] \<Rightarrow> None
         | c # cs \<Rightarrow>
             (case split_at_last '' b/'' cs of
                Some (a, b) \<Rightarrow> Some (c # a, b)
              | None \<Rightarrow> None))
      else None)"

fun match_git :: "string \<Rightarrow> (string \<times> string) option" where
  \<comment> \<open>\<open>line.match(/diff --git a\/(.+) b\/(.+)/)\<close>: the leftmost position that matches\<close>
  "match_git [] = match_git_at []"
| "match_git (c # cs) =
     (case match_git_at (c # cs) of Some r \<Rightarrow> Some r | None \<Rightarrow> match_git cs)"

definition match_hunk_at :: "string \<Rightarrow> (string \<times> string \<times> string \<times> string \<times> string) option" where
  \<comment> \<open>\<open>/@@ -(\d+),?(\d*) \+(\d+),?(\d*) @@(.*)?/\<close> matched at the start of \<open>s\<close>; each
      group of digits takes the whole run of digits it stands at\<close>
  "match_hunk_at s =
     (if \<not> startsWith s ''@@ -'' then None
      else
        let s1 = drop 4 s;
            d1 = takeWhile is_digit s1;
            s2 = dropWhile is_digit s1;
            s3 = (if startsWith s2 '','' then drop 1 s2 else s2);
            d2 = takeWhile is_digit s3;
            s4 = dropWhile is_digit s3
        in if d1 = [] \<or> \<not> startsWith s4 '' +'' then None
           else
             let s5 = drop 2 s4;
                 d3 = takeWhile is_digit s5;
                 s6 = dropWhile is_digit s5;
                 s7 = (if startsWith s6 '','' then drop 1 s6 else s6);
                 d4 = takeWhile is_digit s7;
                 s8 = dropWhile is_digit s7
             in if d3 = [] \<or> \<not> startsWith s8 '' @@'' then None
                else Some (d1, d2, d3, d4, dot_run (drop 3 s8)))"

fun match_hunk :: "string \<Rightarrow> (string \<times> string \<times> string \<times> string \<times> string) option" where
  "match_hunk [] = match_hunk_at []"
| "match_hunk (c # cs) =
     (case match_hunk_at (c # cs) of Some r \<Rightarrow> Some r | None \<Rightarrow> match_hunk cs)"

definition parseInt :: "string \<Rightarrow> nat" where
  \<comment> \<open>on a non-empty string of digits\<close>
  "parseInt d = nat_of_digits 0 d"

definition parseInt_or_1 :: "string \<Rightarrow> nat" where
  \<comment> \<open>\<open>parseInt(d) || 1\<close> on a string of digits: \<open>NaN\<close> (no digit) and 0 are falsy\<close>
  "parseInt_or_1 d = (if d = [] \<or> parseInt d = 0 then 1 else parseInt d)"

subsection \<open>parseDiff (lines 33-76)\<close>

text \<open>
  The state of the loop over the lines. \<open>currentHunk\<close> is not a component of its own:
  it is \<open>null\<close> while \<open>currentFile\<close> has no hunk, and otherwise it is the very object
  that was pushed last onto \<open>currentFile.hunks\<close>, so pushing a line onto
  \<open>currentHunk.lines\<close> changes the last hunk of \<open>currentFile\<close>.
\<close>

record parse_state =
  files :: "diff_file list"
  currentFile :: "diff_file option"

definition file_list :: "diff_file option \<Rightarrow> diff_file list" where
  \<comment> \<open>\<open>if (currentFile) files.push(currentFile)\<close>\<close>
  "file_list cf = (case cf of Some f \<Rightarrow> [f] | None \<Rightarrow> [])"

definition type_of_line :: "string \<Rightarrow> string" where
  "type_of_line line =
     (if startsWith line ''+'' then ''add'' else if startsWith line ''-'' then ''del''
      else ''context'')"

definition push_line :: "string \<Rightarrow> diff_file \<Rightarrow> diff_file" where
  \<comment> \<open>lines 66-69, for a file with at least one hunk\<close>
  "push_line line f =
     (let ty = type_of_line line;
          h = last (hunks f);
          h' = h\<lparr>lines := lines h @ [\<lparr>content = drop 1 line, line_type = ty\<rparr>]\<rparr>
      in f\<lparr>hunks := butlast (hunks f) @ [h'],
           additions := (if ty = ''add'' then additions f + 1 else additions f),
           deletions := (if ty = ''del'' then deletions f + 1 else deletions f)\<rparr>)"

definition parse_line :: "parse_state \<Rightarrow> string \<Rightarrow> parse_state" where
  "parse_line st line =
     (if startsWith line ''diff --git'' then
        \<lparr>files = files st @ file_list (currentFile st),
         currentFile =
           Some (case match_git line of
                   Some (a, b) \<Rightarrow>
                     \<lparr>oldPath = a, newPath = b, hunks = [], additions = 0, deletions = 0\<rparr>
                 | None \<Rightarrow>
                     \<lparr>oldPath = ''unknown'', newPath = ''unknown'', hunks = [],
                      additions = 0, deletions = 0\<rparr>)\<rparr>
      else if startsWith line ''@@'' then
        (case (match_hunk line, currentFile st) of
           (Some (d1, d2, d3, d4, rest), Some f) \<Rightarrow>
             st\<lparr>currentFile :=
                  Some (f\<lparr>hunks := hunks f @
                            [\<lparr>oldStart = parseInt d1, oldCount = parseInt_or_1 d2,
                              newStart = parseInt d3, newCount = parseInt_or_1 d4,
                              header = rest, lines = []\<rparr>]\<rparr>)\<rparr>
         | _ \<Rightarrow> st)
      else
        (case currentFile st of
           Some f \<Rightarrow> if hunks f \<noteq> [] then st\<lparr>currentFile := Some (push_line line f)\<rparr> else st
         | None \<Rightarrow> st))"

definition parseDiff :: "string \<Rightarrow> diff_file list" where
  "parseDiff diffText =
     (if diffText = [] then []
      else
        let st = foldl parse_line \<lparr>files = [], currentFile = None\<rparr> (js_split CHR 0x0A diffText)
        in files st @ file_list (currentFile st))"

subsection \<open>The patch text of handleDownload (lines 445-452)\<close>

fun js_join :: "string \<Rightarrow> string list \<Rightarrow> string" where
  \<comment> \<open>\<open>xs.join(sep)\<close>\<close>
  "js_join sep [] = []"
| "js_join sep [x] = x"
| "js_join sep (x # y # ys) = x @ sep @ js_join sep (y # ys)"

definition line_text :: "diff_line \<Rightarrow> string" where
  "line_text l =
     (if line_type l = ''add'' then ''+'' else if line_type l = ''del'' then ''-'' else '' '')
       @ content l"

definition hunk_head :: "hunk \<Rightarrow> string" where
  "hunk_head h =
     ''@@ -'' @ string_of_nat (oldStart h) @ '','' @ string_of_nat (oldCount h)
       @ '' +'' @ string_of_nat (newStart h) @ '','' @ string_of_nat (newCount h) @ '' @@''
       @ (if header h \<noteq> [] then '' '' @ header h else [])"

definition hunk_text :: "hunk \<Rightarrow> string" where
  "hunk_text h = hunk_head h @ [CHR 0x0A] @ js_join [CHR 0x0A] (map line_text (lines h))"

definition git_head :: "string \<Rightarrow> string \<Rightarrow> string" where
  "git_head a b = ''diff --git a/'' @ a @ '' b/'' @ b"

definition file_text :: "diff_file \<Rightarrow> string" where
  "file_text f =
     git_head (oldPath f) (newPath f) @ [CHR 0x0A]
       @ js_join [CHR 0x0A] (map hunk_text (hunks f))"

definition patch_text :: "diff_file list \<Rightarrow> string" where
  \<comment> \<open>the text \<open>handleDownload\<close> writes from the parsed files\<close>
  "patch_text fs = js_join [CHR 0x0A] (map file_text fs)"

definition handleDownload_content :: "string \<Rightarrow> diff_file list \<Rightarrow> string" where
  \<comment> \<open>\<open>diffContent || parsedFiles.map(...).join('\n')\<close>\<close>
  "handleDownload_content diffContent parsedFiles =
     (if diffContent \<noteq> [] then diffContent else patch_text parsedFiles)"

subsection \<open>Notions for the analysis of the round trip\<close>

definition plain_hunk :: "hunk \<Rightarrow> bool" where
  \<comment> \<open>a hunk with no header text after the second \<open>@@\<close>, with at least one line, and
      with numbers that JavaScript represents exactly\<close>
  "plain_hunk h =
     (header h = [] \<and> lines h \<noteq> [] \<and> oldStart h < 2 ^ 53 \<and> oldCount h < 2 ^ 53
      \<and> newStart h < 2 ^ 53 \<and> newCount h < 2 ^ 53)"

definition wf_line :: "diff_line \<Rightarrow> bool" where
  "wf_line l =
     (CHR 0x0A \<notin> set (content l)
      \<and> (line_type l = ''add'' \<or> line_type l = ''del'' \<or> line_type l = ''context''))"

definition wf_hunk :: "hunk \<Rightarrow> bool" where
  "wf_hunk h = (0 < oldCount h \<and> 0 < newCount h \<and> list_all wf_line (lines h))"

definition count_lines :: "string \<Rightarrow> hunk list \<Rightarrow> nat" where
  \<comment> \<open>the number of lines of a type in a list of hunks\<close>
  "count_lines ty hs = sum_list (map (\<lambda>h. length (filter (\<lambda>l. line_type l = ty) (lines h))) hs)"

definition wf_file :: "diff_file \<Rightarrow> bool" where
  \<comment> \<open>what every file that parseDiff returns satisfies\<close>
  "wf_file f =
     (match_git (git_head (oldPath f) (newPath f)) = Some (oldPath f, newPath f)
      \<and> CHR 0x0A \<notin> set (oldPath f @ newPath f)
      \<and> list_all wf_hunk (hunks f)
      \<and> additions f = count_lines ''add'' (hunks f)
      \<and> deletions f = count_lines ''del'' (hunks f))"

definition hunk_lines :: "hunk \<Rightarrow> string list" where
  "hunk_lines h = hunk_head h # map line_text (lines h)"

definition file_lines :: "diff_file \<Rightarrow> string list" where
  "file_lines f =
     git_head (oldPath f) (newPath f)
       # (if hunks f = [] then [[]] else concat (map hunk_lines (hunks f)))"

definition wf_state :: "parse_state \<Rightarrow> bool" where
  "wf_state st = (list_all wf_file (files st) \<and> list_all wf_file (file_list (currentFile st)))"

section \<open>The backend pipeline\<close>

text \<open>
  The backend (the orchestration layer that README names \<open>app/orchestration/graph.py\<close>)
  is not among the source files; the front end only calls it over HTTP
  (\<open>analyzeTicket\<close>, \<open>resumeWorkflow\<close>). What the repository does hold is the state
  diagram of the pipeline in its README, which is modelled first. The orchestrator
  itself is modelled from the specification.
\<close>

datatype act = analyze_requirements | generate_code | generate_tests | full_pipeline

subsection \<open>The state diagram of README (src/unnamed/part\_006, lines 55-89)\<close>

datatype diagram_state =
  Initial | RequirementAnalyzer | ActionDecision | CodeGenerator | CodeDecision
  | TestGenerator | Final

fun diagram_next :: "diagram_state \<Rightarrow> act \<Rightarrow> diagram_state option" where
  "diagram_next Initial a = Some RequirementAnalyzer"
| "diagram_next RequirementAnalyzer a = Some ActionDecision"
| "diagram_next ActionDecision analyze_requirements = Some Final"
| "diagram_next ActionDecision generate_code = Some CodeGenerator"
| "diagram_next ActionDecision generate_tests = Some TestGenerator"
| "diagram_next ActionDecision full_pipeline = Some CodeGenerator"
| "diagram_next CodeGenerator a = Some CodeDecision"
| "diagram_next CodeDecision generate_code = Some Final"
| "diagram_next CodeDecision full_pipeline = Some TestGenerator"
| "diagram_next CodeDecision a = None"
| "diagram_next TestGenerator a = Some Final"
| "diagram_next Final a = None"

fun diagram_rank :: "diagram_state \<Rightarrow> nat" where
  "diagram_rank Initial = 0"
| "diagram_rank RequirementAnalyzer = 1"
| "diagram_rank ActionDecision = 2"
| "diagram_rank CodeGenerator = 3"
| "diagram_rank CodeDecision = 4"
| "diagram_rank TestGenerator = 5"
| "diagram_rank Final = 6"

lemma diagram_next_rank: "diagram_next s a = Some s' \<Longrightarrow> diagram_rank s < diagram_rank s'"
  by (cases s; cases a) auto

function diagram_path :: "diagram_state \<Rightarrow> act \<Rightarrow> diagram_state list" where
  \<comment> \<open>the states entered from \<open>s\<close> on, following the arrows for the action\<close>
  "diagram_path s a =
     (case diagram_next s a of None \<Rightarrow> [] | Some s' \<Rightarrow> s' # diagram_path s' a)"
  by pat_completeness auto
termination
proof (relation "measure (\<lambda>(s, a). 6 - diagram_rank s)")
  show "wf (measure (\<lambda>(s, a). 6 - diagram_rank s))"
    by simp
next
  fix s :: diagram_state and a :: act and s' :: diagram_state
  assume "diagram_next s a = Some s'"
  then have "diagram_rank s < diagram_rank s'"
    by (rule diagram_next_rank)
  moreover have "diagram_rank s' \<le> 6"
    by (cases s') auto
  ultimately show "((s', a), (s, a)) \<in> measure (\<lambda>(s, a). 6 - diagram_rank s)"
    by simp
qed

declare diagram_path.simps [simp del]

subsection \<open>Data model of the orchestrator (specification, section 3)\<close>

text \<open>
  Modelled from the spec: Ticket, StageResult, RunState, Checkpoint and Event of
  section 3 and the error taxonomy of section 7; the backend's own declarations
  (README's \<open>app/schemas/models.py\<close>) are not in the source files. Run identifiers
  and timestamps are natural numbers, payloads and error details are strings.
\<close>

datatype stage = Requirement | Code | Test

datatype pointer = Start | At stage

datatype stage_status = completed | failed

datatype overall_status = Running | Completed | Failed

record ticket =
  ticket_ref :: string
  title :: string
  ticket_description :: string
  acceptance_criteria :: "string list option"

record stage_result =
  stage_name :: stage
  outcome :: stage_status
  started :: nat
  ended :: nat
  result_payload :: "string option"
  error_detail :: "string option"

record run_state =
  run_id :: nat
  run_ticket :: ticket
  run_action :: act
  stage_results :: "stage_result list"
  current :: pointer
  run_status :: overall_status

record checkpoint =
  snapshot :: run_state
  seq :: nat
  saved_at :: nat

datatype event_kind =
  run_start | stage_start | stage_complete | stage_error | run_complete | run_error

record pipeline_event =
  kind :: event_kind
  event_stage :: "stage option"
  event_time :: nat
  event_payload :: "stage_result option"

datatype orchestrator_error = ValidationError | ConcurrentRunError | CheckpointNotFoundError

text \<open>
  Modelled from the spec: the shared state the orchestrator works on: the Checkpoint Store (the history of
  each run identifier, oldest first), the execution locks held, the events published
  on the Event Bus, the Stage invocations made so far, and a logical clock for the
  timestamps. Subscriber queues of the Event Bus are not part of the model.
\<close>

record world =
  store :: "(nat \<times> checkpoint list) list"
  locks :: "nat list"
  bus :: "(nat \<times> pipeline_event) list"
  invocations :: "(nat \<times> stage) list"
  ticks :: nat

subsection \<open>Transition Table (specification, section 4.1)\<close>

datatype next_step = Next stage | Terminate | Terminate_failure

definition Transition_Table :: "((pointer \<times> act) \<times> next_step) list" where
  \<comment> \<open>Modelled from the spec: the rows of the Transition Table of section 4.1 whose last
      status is \<open>completed\<close> (or none, at \<open>start\<close>); the backend's routing code is
      not in the source files.\<close>
  "Transition_Table =
     [((Start, analyze_requirements), Next Requirement),
      ((Start, generate_code), Next Requirement),
      ((Start, generate_tests), Next Requirement),
      ((Start, full_pipeline), Next Requirement),
      ((At Requirement, analyze_requirements), Terminate),
      ((At Requirement, generate_code), Next Code),
      ((At Requirement, full_pipeline), Next Code),
      ((At Requirement, generate_tests), Next Test),
      ((At Code, generate_code), Terminate),
      ((At Code, full_pipeline), Next Test),
      ((At Test, generate_tests), Terminate),
      ((At Test, full_pipeline), Terminate)]"

definition next_stage :: "pointer \<Rightarrow> act \<Rightarrow> stage_status option \<Rightarrow> next_step" where
  \<comment> \<open>Modelled from the spec: \<open>next(currentStage, action, lastStatus)\<close> of section 4.1.
      The last row of the table (any, any, failed) ends the run in failure; a pair
      with no row has no next stage, which ends the run (section 2).\<close>
  "next_stage cur a lastStatus =
     (if lastStatus = Some failed then Terminate_failure
      else case map_of Transition_Table (cur, a) of Some n \<Rightarrow> n | None \<Rightarrow> Terminate)"

fun pointer_rank :: "pointer \<Rightarrow> nat" where
  "pointer_rank Start = 0"
| "pointer_rank (At Requirement) = 1"
| "pointer_rank (At Code) = 2"
| "pointer_rank (At Test) = 3"

lemma next_stage_rank:
  "next_stage cur a lastStatus = Next s \<Longrightarrow> pointer_rank cur < pointer_rank (At s)"
  by (cases cur rule: pointer_rank.cases; cases a)
    (auto simp: next_stage_def Transition_Table_def split: if_splits)

subsection \<open>Checkpoint Store and Event Bus (specification, sections 4.3 and 4.4)\<close>

definition history :: "world \<Rightarrow> nat \<Rightarrow> checkpoint list" where
  \<comment> \<open>Modelled from the spec: \<open>history(runId)\<close> of the Checkpoint Store, section 4.3.\<close>
  "history w rid = (case map_of (store w) rid of Some cs \<Rightarrow> cs | None \<Rightarrow> [])"

definition latest :: "world \<Rightarrow> nat \<Rightarrow> orchestrator_error + run_state" where
  \<comment> \<open>Modelled from the spec: \<open>latest(runId)\<close>, failing with \<open>CheckpointNotFoundError\<close>
      on an unknown run identifier.\<close>
  "latest w rid =
     (case history w rid of [] \<Rightarrow> Inl CheckpointNotFoundError
      | c # cs \<Rightarrow> Inr (snapshot (last (c # cs))))"

definition save :: "run_state \<Rightarrow> world \<Rightarrow> world" where
  \<comment> \<open>Modelled from the spec: \<open>save(runId, RunState)\<close>; the new checkpoint takes the
      next sequence number and goes to the end of the history, past ones untouched.\<close>
  "save rs w =
     w\<lparr>store := AList.update (run_id rs)
                  (history w (run_id rs)
                     @ [\<lparr>snapshot = rs, seq = Suc (length (history w (run_id rs))),
                         saved_at = ticks w\<rparr>])
                  (store w),
       ticks := Suc (ticks w)\<rparr>"

definition publish :: "nat \<Rightarrow> event_kind \<Rightarrow> stage option \<Rightarrow> stage_result option \<Rightarrow> world \<Rightarrow> world" where
  \<comment> \<open>Modelled from the spec: \<open>publish(runId, Event)\<close> of the Event Bus, section 4.4.\<close>
  "publish rid k s p w =
     w\<lparr>bus := bus w @ [(rid, \<lparr>kind = k, event_stage = s, event_time = ticks w,
                               event_payload = p\<rparr>)],
       ticks := Suc (ticks w)\<rparr>"

subsection \<open>Orchestrator (specification, section 4.2)\<close>

definition last_status :: "run_state \<Rightarrow> stage_status option" where
  \<comment> \<open>Modelled from the spec: the \<open>lastStatus\<close> argument of the Transition Table, the
      status of the StageResult appended last (none at \<open>start\<close>).\<close>
  "last_status rs =
     (case stage_results rs of [] \<Rightarrow> None | r # rest \<Rightarrow> Some (outcome (last (r # rest))))"

text \<open>
  Modelled from the spec: a Stage (section 4.5) is a parameter: \<open>stages s rs\<close> is what
  the Stage \<open>s\<close> returns for the run context \<open>rs\<close>, \<open>Inr\<close> its payload or \<open>Inl\<close> the
  detail of its failure (a timeout counts as a failure).
\<close>

definition begin_stage :: "nat \<Rightarrow> stage \<Rightarrow> world \<Rightarrow> world" where
  \<comment> \<open>Modelled from the spec: publish \<open>stage_start\<close> and invoke the Stage; the
      invocation is logged and takes two readings of the clock (start and end).\<close>
  "begin_stage rid s w =
     (let w1 = publish rid stage_start (Some s) None w
      in w1\<lparr>invocations := invocations w1 @ [(rid, s)], ticks := Suc (Suc (ticks w1))\<rparr>)"

definition result_of :: "stage \<Rightarrow> string + string \<Rightarrow> world \<Rightarrow> stage_result" where
  \<comment> \<open>Modelled from the spec: the StageResult of section 3 for an invocation that
      \<open>begin_stage\<close> left in world \<open>w\<close>.\<close>
  "result_of s out w =
     (case out of
        Inr p \<Rightarrow> \<lparr>stage_name = s, outcome = completed, started = ticks w - 2,
                   ended = ticks w - 1, result_payload = Some p, error_detail = None\<rparr>
      | Inl detail \<Rightarrow> \<lparr>stage_name = s, outcome = failed, started = ticks w - 2,
                   ended = ticks w - 1, result_payload = None, error_detail = Some detail\<rparr>)"

definition fail_run :: "run_state \<Rightarrow> world \<Rightarrow> run_state \<times> world" where
  \<comment> \<open>Modelled from the spec: set the status to \<open>failed\<close>, publish \<open>run_error\<close>, stop.\<close>
  "fail_run rs w = (rs\<lparr>run_status := Failed\<rparr>, publish (run_id rs) run_error None None w)"

definition complete_run :: "run_state \<Rightarrow> world \<Rightarrow> run_state \<times> world" where
  \<comment> \<open>Modelled from the spec: on Terminate with no failure set the status to
      \<open>completed\<close>, checkpoint, publish \<open>run_complete\<close>.\<close>
  "complete_run rs w =
     (let rs1 = rs\<lparr>run_status := Completed\<rparr>
      in (rs1, publish (run_id rs) run_complete None None (save rs1 w)))"

function run_loop :: "(stage \<Rightarrow> run_state \<Rightarrow> string + string) \<Rightarrow> run_state \<Rightarrow> world
    \<Rightarrow> run_state \<times> world" where
  \<comment> \<open>Modelled from the spec: the main loop of section 4.2. The Transition Table
      gives the stage to run; on success the result is appended, checkpointed and
      announced and the loop goes on; on failure the result is appended, checkpointed
      and announced, and then the run fails, in the order the section gives (the
      checkpoint of a failed stage is written before the status becomes \<open>failed\<close>).\<close>
  "run_loop stages rs w =
     (case next_stage (current rs) (run_action rs) (last_status rs) of
        Terminate \<Rightarrow> complete_run rs w
      | Terminate_failure \<Rightarrow> fail_run rs w
      | Next s \<Rightarrow>
          (let w1 = begin_stage (run_id rs) s w;
               rs1 = rs\<lparr>current := At s\<rparr>;
               r = result_of s (stages s rs1) w1;
               rs2 = rs1\<lparr>stage_results := stage_results rs1 @ [r]\<rparr>
           in case stages s rs1 of
                Inr p \<Rightarrow>
                  run_loop stages rs2
                    (publish (run_id rs) stage_complete (Some s) (Some r) (save rs2 w1))
              | Inl detail \<Rightarrow>
                  fail_run rs2
                    (publish (run_id rs) stage_error (Some s) (Some r) (save rs2 w1))))"
  by pat_completeness auto
termination
proof (relation "measure (\<lambda>(stages, rs, w). 3 - pointer_rank (current rs))")
  show "wf (measure (\<lambda>(stages, rs, w). 3 - pointer_rank (current rs)))"
    by simp
next
  fix stages :: "stage \<Rightarrow> run_state \<Rightarrow> string + string"
    and rs rs1 rs2 :: run_state and w w1 :: world and s :: stage and r :: stage_result
  assume n: "next_stage (current rs) (run_action rs) (last_status rs) = Next s"
    and rs1: "rs1 = rs\<lparr>current := At s\<rparr>"
    and rs2: "rs2 = rs1\<lparr>stage_results := stage_results rs1 @ [r]\<rparr>"
  have "pointer_rank (current rs) < pointer_rank (At s)"
    using n by (rule next_stage_rank)
  moreover have "pointer_rank (At s) \<le> 3"
    by (cases s) auto
  ultimately show "((stages, rs2, publish (run_id rs) stage_complete (Some s) (Some r) (save rs2 w1)),
                    (stages, rs, w))
                   \<in> measure (\<lambda>(stages, rs, w). 3 - pointer_rank (current rs))"
    by (simp add: rs1 rs2)
qed

declare run_loop.simps [simp del]

text \<open>For the analysis of the loop: the RunState after one Stage has returned.\<close>

definition after_stage :: "stage \<Rightarrow> string + string \<Rightarrow> run_state \<Rightarrow> world \<Rightarrow> run_state" where
  "after_stage s out rs w =
     rs\<lparr>current := At s,
        stage_results := stage_results rs @ [result_of s out (begin_stage (run_id rs) s w)]\<rparr>"

function table_path :: "pointer \<Rightarrow> act \<Rightarrow> stage_status option \<Rightarrow> stage list" where
  \<comment> \<open>the stages the Transition Table leads through when every stage completes\<close>
  "table_path cur a lastStatus =
     (case next_stage cur a lastStatus of
        Next s \<Rightarrow> s # table_path (At s) a (Some completed)
      | Terminate \<Rightarrow> []
      | Terminate_failure \<Rightarrow> [])"
  by pat_completeness auto
termination
proof (relation "measure (\<lambda>(cur, a, l). 3 - pointer_rank cur)")
  show "wf (measure (\<lambda>(cur, a, l). 3 - pointer_rank cur))"
    by simp
next
  fix cur :: pointer and a :: act and lastStatus :: "stage_status option" and s :: stage
  assume "next_stage cur a lastStatus = Next s"
  then have "pointer_rank cur < pointer_rank (At s)"
    by (rule next_stage_rank)
  moreover have "pointer_rank (At s) \<le> 3"
    by (cases s) auto
  ultimately show "((At s, a, Some completed), (cur, a, lastStatus))
                   \<in> measure (\<lambda>(cur, a, l). 3 - pointer_rank cur)"
    by simp
qed

declare table_path.simps [simp del]

definition fresh_id :: "world \<Rightarrow> nat" where
  \<comment> \<open>Modelled from the spec: a fresh run identifier (section 4.2), one that neither
      the store nor the locks know.\<close>
  "fresh_id w = Suc (foldr max (map fst (store w) @ locks w) 0)"

definition init_run :: "nat \<Rightarrow> ticket \<Rightarrow> act \<Rightarrow> run_state" where
  \<comment> \<open>Modelled from the spec: the initial RunState of section 4.2, with no StageResults
      and the current stage at \<open>start\<close>.\<close>
  "init_run rid t a =
     \<lparr>run_id = rid, run_ticket = t, run_action = a, stage_results = [], current = Start,
      run_status = Running\<rparr>"

definition locked_run :: "(stage \<Rightarrow> run_state \<Rightarrow> string + string) \<Rightarrow> run_state \<Rightarrow> world
    \<Rightarrow> (orchestrator_error + run_state) \<times> world" where
  \<comment> \<open>Modelled from the spec: take the per-run execution lock or fail with
      \<open>ConcurrentRunError\<close>, run the loop, release the lock on the way out.\<close>
  "locked_run stages rs w =
     (if run_id rs \<in> set (locks w) then (Inl ConcurrentRunError, w)
      else (case run_loop stages rs (w\<lparr>locks := run_id rs # locks w\<rparr>) of
              (rs', w') \<Rightarrow> (Inr rs', w'\<lparr>locks := removeAll (run_id rs) (locks w')\<rparr>)))"

definition execute :: "(stage \<Rightarrow> run_state \<Rightarrow> string + string) \<Rightarrow> ticket \<Rightarrow> act option \<Rightarrow> nat option
    \<Rightarrow> world \<Rightarrow> (orchestrator_error + run_state) \<times> world" where
  \<comment> \<open>Modelled from the spec: \<open>execute(ticket, action, runId?)\<close> of section 4.2, with
      the validation of section 7 (missing ticket reference or empty action) first.\<close>
  "execute stages t a runId w =
     (case a of
        None \<Rightarrow> (Inl ValidationError, w)
      | Some a' \<Rightarrow>
          if ticket_ref t = [] then (Inl ValidationError, w)
          else (case runId of
                  None \<Rightarrow> locked_run stages (init_run (fresh_id w) t a') w
                | Some rid \<Rightarrow>
                    (case latest w rid of
                       Inl e \<Rightarrow> locked_run stages (init_run rid t a') w
                     | Inr rs \<Rightarrow>
                         if run_status rs \<noteq> Running then (Inr rs, w)
                         else locked_run stages rs w)))"


text \<open>The stage sequences that the claim lists for the four actions.\<close>

fun listed_sequence :: "act \<Rightarrow> stage list" where
  "listed_sequence analyze_requirements = [Requirement]"
| "listed_sequence generate_code = [Requirement, Code]"
| "listed_sequence generate_tests = [Requirement, Test]"
| "listed_sequence full_pipeline = [Requirement, Code, Test]"

fun stage_of_state :: "diagram_state \<Rightarrow> stage option" where
  "stage_of_state RequirementAnalyzer = Some Requirement"
| "stage_of_state CodeGenerator = Some Code"
| "stage_of_state TestGenerator = Some Test"
| "stage_of_state s = None"

definition store_consistent :: "world \<Rightarrow> bool" where
  \<comment> \<open>every checkpoint is filed under the run identifier of its snapshot\<close>
  "store_consistent w =
     list_all (\<lambda>(rid, cs). list_all (\<lambda>c. run_id (snapshot c) = rid) cs) (store w)"

definition empty_world :: world where
  "empty_world = \<lparr>store = [], locks = [], bus = [], invocations = [], ticks = 0\<rparr>"

section \<open>Example inputs\<close>

definition example_form :: form_data where
  "example_form = \<lparr>jiraId = ''T-1'', repoUrl = '''', actions = [''req'', ''test''], model = ''gpt-4o''\<rparr>"

definition example_state :: app_state where
  "example_state =
     \<lparr>view = ''input'', formData = example_form, apiResponse = None, isLoading = False,
      executionStatus = ''idle'', currentAgent = None, error = None, toast = None\<rparr>"

definition example_response :: analyze_response where
  "example_response =
     \<lparr>request_id = ''r1'',
      agents = Some [\<lparr>agent_name = ''RequirementAnalyzer'', agent_status = ''completed'',
                      started_at = Some ''t0'', completed_at = Some ''t1''\<rparr>,
                     \<lparr>agent_name = ''TestGenerator'', agent_status = ''failed'',
                      started_at = None, completed_at = None\<rparr>]\<rparr>"

definition example_requirements :: "requirement list" where
  "example_requirements =
     [\<lparr>req_id = ''R1'', description = ''login'', priority = ''high''\<rparr>,
      \<lparr>req_id = ''R2'', description = ''logout'', priority = ''low''\<rparr>,
      \<lparr>req_id = ''7'', description = ''audit'', priority = ''low''\<rparr>]"






definition example_ticket :: ticket where
  "example_ticket =
     \<lparr>ticket_ref = ''T-1'', title = ''Login'', ticket_description = ''Users can log in'',
      acceptance_criteria = None\<rparr>"

definition example_diff_header :: string where
  "example_diff_header = ''diff --git a/x b/x\<newline>@@ -1,1 +1,1 @@ h\<newline>+a''"

definition example_diff_plain :: string where
  "example_diff_plain =
     ''diff --git a/src/app.py b/src/app.py\<newline>index 1..2\<newline>@@ -3,2 +3,2 @@\<newline> keep\<newline>-old\<newline>+new''"

definition example_diff_empty_hunk :: string where
  "example_diff_empty_hunk = ''diff --git a/x b/x\<newline>@@ -1 +1 @@''"

section \<open>Properties of the App component\<close>

lemma runPipeline_actions_agree:
  "\<not> (js_includes sel ''code'' \<and> js_includes sel ''test'' \<and> \<not> js_includes sel ''req'')
     \<Longrightarrow> runPipeline_action_000 sel = runPipeline_action_001 sel"
  by (auto simp add: runPipeline_action_000_def runPipeline_action_001_def Let_def)

text \<open>
  C2. The two versions of \<open>runPipeline\<close> compute the same action for every selection
  but one: for the selection of \<open>code\<close> and \<open>test\<close> without \<open>req\<close>, part\_000 asks for
  \<open>full_pipeline\<close> (its comment: "Need full pipeline for code + test"), while part\_001
  has no branch for it and falls back to \<open>analyze_requirements\<close>.
\<close>

theorem runPipeline_actions_differ:
  "runPipeline_action_000 [''code'', ''test''] = ''full_pipeline''
   \<and> runPipeline_action_001 [''code'', ''test''] = ''analyze_requirements''
   \<and> runPipeline_action_000 [''code'', ''test''] \<noteq> runPipeline_action_001 [''code'', ''test'']"
  by (simp add: runPipeline_action_000_def runPipeline_action_001_def js_includes_def)

text \<open>
  C3. For a non-empty selection, the action in the payload that either version of
  \<open>runPipeline\<close> hands to \<open>api.analyzeTicket\<close> is one of the four Action values; with
  \<open>req\<close>, \<open>code\<close> and \<open>test\<close> all selected it is \<open>full_pipeline\<close>, and with \<open>req\<close> and
  \<open>test\<close> but not \<open>code\<close> it is \<open>generate_tests\<close>. Every request that \<open>runPipeline\<close> of
  part\_000 posts is that payload.
\<close>

theorem runPipeline_action_valid:
  assumes "actions fd \<noteq> []"
  shows "action (analyze_payload_000 now fd) \<in> set Action_values
    \<and> action (analyze_payload_001 now fd) \<in> set Action_values
    \<and> (js_includes (actions fd) ''req'' \<and> js_includes (actions fd) ''code''
         \<and> js_includes (actions fd) ''test''
        \<longrightarrow> action (analyze_payload_000 now fd) = ''full_pipeline''
            \<and> action (analyze_payload_001 now fd) = ''full_pipeline'')
    \<and> (js_includes (actions fd) ''req'' \<and> js_includes (actions fd) ''test''
         \<and> \<not> js_includes (actions fd) ''code''
        \<longrightarrow> action (analyze_payload_000 now fd) = ''generate_tests''
            \<and> action (analyze_payload_001 now fd) = ''generate_tests'')
    \<and> (\<forall>r \<in> set (snd (runPipeline_000 now api (st\<lparr>formData := fd\<rparr>))).
          r = analyze_payload_000 now fd)"
proof -
  have "\<forall>r \<in> set (snd (runPipeline_000 now api (st\<lparr>formData := fd\<rparr>))).
          r = analyze_payload_000 now fd"
    by (simp add: runPipeline_000_def Let_def split: sum.splits)
  then show ?thesis
    by (simp add: analyze_payload_000_def analyze_payload_001_def runPipeline_action_000_def
        runPipeline_action_001_def Action_values_def Let_def)
qed

theorem runPipeline_action_valid_witness:
  "actions example_form \<noteq> []
   \<and> action (analyze_payload_000 0 example_form) = ''generate_tests''
   \<and> action (analyze_payload_001 0 example_form) = ''generate_tests''
   \<and> map action (snd (runPipeline_000 0 (\<lambda>r. Inr example_response) example_state))
       = [''generate_tests'']"
proof -
  have ne: "actions example_form \<noteq> []"
    by (simp add: example_form_def)
  have sel: "js_includes (actions example_form) ''req'' \<and> js_includes (actions example_form) ''test''
         \<and> \<not> js_includes (actions example_form) ''code''"
    by (simp add: example_form_def js_includes_def)
  have sent: "snd (runPipeline_000 0 (\<lambda>r. Inr example_response) example_state)
        = [analyze_payload_000 0 example_form]"
    by (simp add: runPipeline_000_def example_state_def example_form_def Let_def)
  from runPipeline_action_valid [OF ne, of 0 "\<lambda>r. Inr example_response" example_state] sel sent ne
  show ?thesis by simp
qed

text \<open>
  C5. When the form has neither a ticket id nor a repository URL, or no agent is
  selected, \<open>runPipeline\<close> of part\_000 posts no request and changes nothing of the
  state but the toast, which reports the validation error: the view, the run status,
  the response and the loading flag stay as they were.
\<close>

theorem runPipeline_validation:
  assumes "(jiraId (formData st) = [] \<and> repoUrl (formData st) = [])
           \<or> actions (formData st) = []"
  shows "runPipeline_000 now api st =
           (st\<lparr>toast := Some (''Please provide input and select at least one agent'', ''error'')\<rparr>,
            [])"
  using assms by (auto simp add: runPipeline_000_def showToast_def Let_def)

theorem runPipeline_validation_witness:
  "snd (runPipeline_000 0 (\<lambda>r. Inr example_response)
          (example_state\<lparr>formData := example_form\<lparr>actions := []\<rparr>\<rparr>)) = []
   \<and> view (fst (runPipeline_000 0 (\<lambda>r. Inr example_response)
          (example_state\<lparr>formData := example_form\<lparr>actions := []\<rparr>\<rparr>))) = ''input''
   \<and> apiResponse (fst (runPipeline_000 0 (\<lambda>r. Inr example_response)
          (example_state\<lparr>formData := example_form\<lparr>actions := []\<rparr>\<rparr>))) = None
   \<and> executionStatus (fst (runPipeline_000 0 (\<lambda>r. Inr example_response)
          (example_state\<lparr>formData := example_form\<lparr>actions := []\<rparr>\<rparr>))) = ''idle''"
proof -
  have h: "(jiraId (formData (example_state\<lparr>formData := example_form\<lparr>actions := []\<rparr>\<rparr>)) = []
            \<and> repoUrl (formData (example_state\<lparr>formData := example_form\<lparr>actions := []\<rparr>\<rparr>)) = [])
           \<or> actions (formData (example_state\<lparr>formData := example_form\<lparr>actions := []\<rparr>\<rparr>)) = []"
    by simp
  show ?thesis
    unfolding runPipeline_validation [OF h]
    by (simp add: example_state_def)
qed

text \<open>
  With a ticket id and a selection the same call does post its request and moves to
  the result view, so the guard is what keeps the request back.
\<close>

lemma runPipeline_runs_example:
  "snd (runPipeline_000 0 (\<lambda>r. Inr example_response) example_state)
     = [analyze_payload_000 0 example_form]
   \<and> view (fst (runPipeline_000 0 (\<lambda>r. Inr example_response) example_state)) = ''result''"
  by (simp add: runPipeline_000_def example_state_def example_form_def Let_def showToast_def
      agent_ids_def js_includes_def)

lemma start_answered_flatMap: "start_answered (flatMap_events clock idx as)"
proof (induction as arbitrary: idx)
  case Nil
  show ?case by simp
next
  case (Cons a as)
  have seg: "takeWhile (\<lambda>x. event x \<noteq> ''node_start'') (flatMap_events clock (Suc idx) as) = []"
    by (cases as) (simp_all add: agent_events_def)
  show ?case
    using Cons.IH [of "Suc idx"] by (simp add: agent_events_def is_end_def seg)
qed

text \<open>
  C6. In the event list the Workflow tab builds from the agents of a response, every
  \<open>node_start\<close> of a stage is followed, before any other \<open>node_start\<close>, by exactly one
  \<open>node_complete\<close> or \<open>node_error\<close>, and that one is of the same stage.
\<close>

theorem workflow_events_ordered: "start_answered (workflow_events clock response)"
  by (simp add: workflow_events_def start_answered_flatMap)

theorem workflow_events_ordered_witness:
  "start_answered (workflow_events (\<lambda>k. ''now'') example_response)
   \<and> map event (workflow_events (\<lambda>k. ''now'') example_response)
       = [''node_start'', ''node_complete'', ''node_start'', ''node_error'']
   \<and> map node (workflow_events (\<lambda>k. ''now'') example_response)
       = [''RequirementAnalyzer'', ''RequirementAnalyzer'', ''TestGenerator'', ''TestGenerator'']"
  using workflow_events_ordered [of "\<lambda>k. ''now''" example_response]
  by (simp add: workflow_events_def example_response_def agent_events_def)

section \<open>Properties of the traceability matrix\<close>

subsection \<open>Rounding to double precision\<close>





lemma rat_le_pow2:
  assumes "(n::int) \<le> 2 ^ k" "(y::rat) \<le> of_int n"
  shows "y \<le> 2 ^ k"
proof -
  have "(of_int n :: rat) \<le> of_int (2 ^ k)" using assms(1) by (simp only: of_int_le_iff)
  also have "\<dots> = 2 ^ k" by simp
  finally show ?thesis using assms(2) by (rule order_trans [rotated])
qed

lemma rat_lt_pow2:
  assumes "(n::int) \<le> 2 ^ k" "(y::rat) < of_int n"
  shows "y < 2 ^ k"
proof -
  have "(of_int n :: rat) \<le> of_int (2 ^ k)" using assms(1) by (simp only: of_int_le_iff)
  also have "\<dots> = 2 ^ k" by simp
  finally show ?thesis using assms(2) by (rule less_le_trans [rotated])
qed

lemma pow2_le_rat:
  assumes "2 ^ k \<le> (n::int)" "of_int n \<le> (y::rat)"
  shows "2 ^ k \<le> y"
proof -
  have "(2::rat) ^ k = of_int (2 ^ k)" by simp
  also have "\<dots> \<le> of_int n" using assms(1) by (simp only: of_int_le_iff)
  finally show ?thesis using assms(2) by (rule order_trans)
qed

lemma pow2_lt_rat:
  assumes "2 ^ k \<le> (n::int)" "of_int n < (y::rat)"
  shows "2 ^ k < y"
proof -
  have "(2::rat) ^ k = of_int (2 ^ k)" by simp
  also have "\<dots> \<le> of_int n" using assms(1) by (simp only: of_int_le_iff)
  finally show ?thesis using assms(2) by (rule le_less_trans)
qed

lemma ilog2_bounds:
  assumes "0 < x"
  shows "2 powi (ilog2 x) \<le> x \<and> x < 2 powi (ilog2 x + 1)"
proof (cases "1 \<le> x")
  case True
  define n where "n = \<lfloor>x\<rfloor>"
  define k where "k = bitlen n"
  have n: "0 < n" using True by (simp add: n_def)
  from bitlen_bounds [OF n] have lo: "2 ^ nat (k - 1) \<le> n" and hi: "n + 1 \<le> 2 ^ nat k"
    by (simp_all add: k_def)
  have k: "1 \<le> k" using n bitlen_eq_zero_iff [of n] bitlen_nonneg [of n] unfolding k_def by linarith
  have "of_int n \<le> x" by (simp add: n_def)
  with lo have a: "(2::rat) ^ nat (k - 1) \<le> x" by (rule pow2_le_rat)
  have "x < of_int (n + 1)" unfolding n_def by linarith
  with hi have b: "x < (2::rat) ^ nat k" by (rule rat_lt_pow2)
  have e: "ilog2 x = k - 1" using True by (simp add: ilog2_def k_def n_def)
  from a b k show ?thesis
    by (simp add: e power_int_def)
next
  case False
  with assms have x1: "x < 1" by simp
  define y where "y = 1 / x"
  define m where "m = \<lceil>y\<rceil> - 1"
  define k where "k = bitlen m"
  have y0: "0 < y" using assms by (simp add: y_def)
  have xy: "x = 1 / y" by (simp add: y_def)
  have y1: "1 < y" using assms x1 by (simp add: y_def)
  then have m: "0 < m" by (simp add: m_def less_ceiling_iff)
  from bitlen_bounds [OF m] have lo: "2 ^ nat (k - 1) \<le> m" and hi: "m + 1 \<le> 2 ^ nat k"
    by (simp_all add: k_def)
  have k: "1 \<le> k" using m bitlen_eq_zero_iff [of m] bitlen_nonneg [of m] unfolding k_def by linarith
  have e: "ilog2 x = - k" using False by (simp add: ilog2_def k_def m_def y_def)
  have "y \<le> of_int (m + 1)" by (simp add: m_def)
  with hi have "y \<le> 2 ^ nat k" by (rule rat_le_pow2)
  then have a: "1 / 2 ^ nat k \<le> x"
    using y0 by (simp add: xy field_simps)
  have "of_int m < y" unfolding m_def by linarith
  with lo have "2 ^ nat (k - 1) < y" by (rule pow2_lt_rat)
  then have b: "x < 1 / 2 ^ nat (k - 1)"
    using y0 by (simp add: xy field_simps)
  have p1: "(2::rat) powi (- k) = 1 / 2 ^ nat k"
    using k by (simp add: power_int_def field_simps)
  have p2: "(2::rat) powi (- k + 1) = 1 / 2 ^ nat (k - 1)"
  proof (cases "k = 1")
    case True then show ?thesis by simp
  next
    case False
    with k have "- k + 1 < 0" by simp
    moreover have "nat (- (- k + 1)) = nat (k - 1)" by simp
    ultimately show ?thesis by (simp add: power_int_def field_simps)
  qed
  from a b show ?thesis unfolding e p1 p2 by simp
qed

lemma ilog2_less:
  assumes "0 < x" "x < 2 powi (e + 1)"
  shows "ilog2 x \<le> e"
proof (rule ccontr)
  assume "\<not> ilog2 x \<le> e"
  then have "e + 1 \<le> ilog2 x" by simp
  then have "(2::rat) powi (e + 1) \<le> 2 powi ilog2 x" by (intro power_int_increasing) simp_all
  also have "\<dots> \<le> x" using ilog2_bounds [OF assms(1)] by simp
  finally show False using assms(2) by simp
qed

lemma ilog2_greater:
  assumes "0 < x" "2 powi e \<le> x"
  shows "e \<le> ilog2 x"
proof (rule ccontr)
  assume "\<not> e \<le> ilog2 x"
  then have "ilog2 x + 1 \<le> e" by simp
  then have "(2::rat) powi (ilog2 x + 1) \<le> 2 powi e" by (intro power_int_increasing) simp_all
  also note assms(2)
  finally show False using ilog2_bounds [OF assms(1)] by simp
qed

lemma ilog2_unique:
  "0 < x \<Longrightarrow> 2 powi e \<le> x \<Longrightarrow> x < 2 powi (e + 1) \<Longrightarrow> ilog2 x = e"
  using ilog2_less [of x e] ilog2_greater [of x e] by simp


lemma to_double_pos:
  "0 < x \<Longrightarrow> to_double x = of_int (round_half_even (x / 2 powi (ilog2 x - 52))) * 2 powi (ilog2 x - 52)"
  by (simp add: to_double_def Let_def)






lemma rhe_eval:
  assumes "0 < q"
  shows "round_half_even (of_int p / of_int q) =
    (if 2 * (p mod q) < q then p div q else if q < 2 * (p mod q) then p div q + 1
     else if even (p div q) then p div q else p div q + 1)"
proof -
  have f: "\<lfloor>(of_int p / of_int q :: rat)\<rfloor> = p div q" by (rule floor_divide_of_int_eq)
  have "(of_int p :: rat) = of_int (p div q * q + p mod q)" by simp
  also have "\<dots> = of_int (p div q) * of_int q + of_int (p mod q)" by (simp only: of_int_add of_int_mult)
  finally have d: "(of_int p / of_int q :: rat) - of_int (p div q) = of_int (p mod q) / of_int q"
    using assms by (simp add: field_simps)
  have lt: "(of_int (p mod q) / of_int q :: rat) < 1 / 2 \<longleftrightarrow> 2 * (p mod q) < q"
  proof -
    have "(of_int (p mod q) / of_int q :: rat) < 1 / 2 \<longleftrightarrow> (of_int (2 * (p mod q)) :: rat) < of_int q"
      using assms by (simp add: field_simps)
    also have "\<dots> \<longleftrightarrow> 2 * (p mod q) < q" by (simp only: of_int_less_iff)
    finally show ?thesis .
  qed
  have gt: "1 / 2 < (of_int (p mod q) / of_int q :: rat) \<longleftrightarrow> q < 2 * (p mod q)"
  proof -
    have "1 / 2 < (of_int (p mod q) / of_int q :: rat) \<longleftrightarrow> (of_int q :: rat) < of_int (2 * (p mod q))"
      using assms by (simp add: field_simps)
    also have "\<dots> \<longleftrightarrow> q < 2 * (p mod q)" by (simp only: of_int_less_iff)
    finally show ?thesis .
  qed
  show ?thesis
    unfolding round_half_even_def Let_def f d lt gt ..
qed

lemma to_double_eval:
  assumes "0 < x" "2 powi e \<le> x" "x < 2 powi (e + 1)"
  shows "to_double x = of_int (round_half_even (x / 2 powi (e - 52))) * 2 powi (e - 52)"
  using to_double_pos [OF assms(1)] ilog2_unique [OF assms] by simp

text \<open>
  The roundings are visible in the result: 23 of 40 is 57.5 percent exactly, but the
  quotient rounds down, the product is just below 57.5, and the component shows 57.
\<close>

lemma to_double_23_40: "to_double (23 / 40) = 5179139571476070 / 2 ^ 53"
proof -
  have u: "(2::rat) powi (- 1 - 52) = 1 / 2 ^ 53" by (simp add: power_int_minus field_simps)
  have x: "(23 / 40 :: rat) / (1 / 2 ^ 53) = of_int (23 * 2 ^ 53) / of_int 40" by simp
  have r: "round_half_even (of_int (23 * 2 ^ 53) / of_int 40) = 5179139571476070"
    by (subst rhe_eval) simp_all
  have "to_double (23 / 40) = of_int (round_half_even ((23 / 40) / 2 powi (- 1 - 52))) * 2 powi (- 1 - 52)"
    by (rule to_double_eval) (simp_all add: power_int_minus)
  then show ?thesis unfolding u x r by simp
qed

lemma to_double_57: "to_double (5179139571476070 / 2 ^ 53 * 100) = 8092405580431359 / 2 ^ 47"
proof -
  have u: "(2::rat) powi (5 - 52) = 1 / 2 ^ 47" by (simp add: power_int_minus field_simps)
  have x: "(5179139571476070 / 2 ^ 53 * 100 :: rat) / (1 / 2 ^ 47) = of_int 517913957147607000 / of_int 64" by simp
  have r: "round_half_even (of_int 517913957147607000 / of_int 64) = 8092405580431359"
    by (subst rhe_eval) simp_all
  have "to_double (5179139571476070 / 2 ^ 53 * 100)
      = of_int (round_half_even ((5179139571476070 / 2 ^ 53 * 100) / 2 powi (5 - 52))) * 2 powi (5 - 52)"
    by (rule to_double_eval) simp_all
  then show ?thesis unfolding u x r by simp
qed

lemma js_round_percent_23_40: "js_round_percent 23 40 = 57"
proof -
  have "Math_round (8092405580431359 / 2 ^ 47) = 57"
    unfolding Math_round_def by (rule floor_unique) simp_all
  then show ?thesis
    unfolding js_round_percent_def of_nat_numeral to_double_23_40 to_double_57 by simp
qed







subsection \<open>Building the map\<close>













subsection \<open>The values of the map and the statistics\<close>





text \<open>
  Having a linked code change or test, on the input: some code change lists the id,
  some test covers it.
\<close>

lemma linked_changes_nonempty:
  "linked_changes k changes \<noteq> [] \<longleftrightarrow> (\<exists>c \<in> set changes. k \<in> set (implementsReqs c))"
  by (auto simp: linked_changes_def filter_empty_conv)

lemma linked_tests_nonempty:
  "linked_tests k ts \<noteq> [] \<longleftrightarrow> k \<noteq> [] \<and> (\<exists>t \<in> set ts. covers_requirement t = Some k)"
  by (auto simp: linked_tests_def filter_empty_conv)


text \<open>
  A reference to an inherited name that is not a requirement id makes the component
  throw: \<open>map['toString']\<close> is a function, truthy, and has no \<open>codeChanges\<close>.
\<close>

lemma traceabilityData_throws:
  "traceabilityData example_requirements
     [\<lparr>change_file = ''auth.py'', implements_requirements = Some [''toString'']\<rparr>] []
   = Inl TypeError"
  by (simp add: traceabilityData_def init_requirements_def set_prop_def push_at_def
      example_requirements_def Object_prototype_names_def entry_field_names_def implementsReqs_def)




section \<open>Properties of the event-stream reader\<close>

lemma js_split_ne: "js_split c s \<noteq> []"
  by (induction s) (auto split: list.splits)

lemma js_split_append:
  "js_split c (s @ t) = butlast (js_split c s) @ js_split c (last (js_split c s) @ t)"
proof (induction s)
  case Nil show ?case by simp
next
  case (Cons x s)
  show ?case
  proof (cases "x = c")
    case True
    then show ?thesis using Cons js_split_ne[of c s] by simp
  next
    case False
    obtain l ls where s: "js_split c s = l # ls" using js_split_ne[of c s] by (cases "js_split c s") auto
    show ?thesis
    proof (cases ls)
      case Nil
      then show ?thesis using False Cons s js_split_ne[of c "l @ t"] by (auto split: list.splits)
    next
      case (Cons a list)
      then show ?thesis using False Cons.IH s js_split_ne[of c "last ls @ t"] by (auto split: list.splits)
    qed
  qed
qed

lemma sse_lines_data: "map fst (sse_lines parse cur ls) = List.map_filter (data_of parse) ls"
  by (induction ls arbitrary: cur) (auto simp: data_of_def List.map_filter_simps split: option.splits)

lemma map_filter_append: "List.map_filter f (xs @ ys) = List.map_filter f xs @ List.map_filter f ys"
  by (simp add: List.map_filter_def)


lemma complete_lines_append:
  "complete_lines (s @ t) = complete_lines s @ complete_lines (pending_line s @ t)"
  unfolding complete_lines_def pending_line_def
  by (subst js_split_append) (simp add: butlast_append js_split_ne)

lemma pending_line_append: "pending_line (s @ t) = pending_line (pending_line s @ t)"
  unfolding pending_line_def
  by (subst js_split_append) (simp add: js_split_ne)

lemma sse_chunk_lines:
  "sse_chunk parse (buf, out) ch
     = (pending_line (buf @ ch), out @ sse_lines parse None (complete_lines (buf @ ch)))"
  by (simp add: sse_chunk_def Let_def complete_lines_def pending_line_def)

lemma fold_data:
  "map fst (snd (foldl (sse_chunk parse) (pending_line s, out) chunks))
     = map fst out @ List.map_filter (data_of parse) (complete_lines (pending_line s @ concat chunks))"
proof (induction chunks arbitrary: s out)
  case Nil
  have "complete_lines (pending_line s) = complete_lines (pending_line s @ [])" by simp
  have "complete_lines (s @ []) = complete_lines s @ complete_lines (pending_line s @ [])"
    by (rule complete_lines_append)
  then have "complete_lines (pending_line s) = []" by simp
  then show ?case by (simp add: List.map_filter_simps)
next
  case (Cons ch chunks)
  have "map fst (snd (foldl (sse_chunk parse) (pending_line s, out) (ch # chunks)))
      = map fst (snd (foldl (sse_chunk parse) (pending_line (pending_line s @ ch),
           out @ sse_lines parse None (complete_lines (pending_line s @ ch))) chunks))"
    by (simp add: sse_chunk_lines)
  also have "\<dots> = map fst (out @ sse_lines parse None (complete_lines (pending_line s @ ch)))
      @ List.map_filter (data_of parse) (complete_lines (pending_line (pending_line s @ ch) @ concat chunks))"
    by (rule Cons.IH)
  also have "\<dots> = map fst out @ List.map_filter (data_of parse)
        (complete_lines ((pending_line s @ ch) @ concat chunks))"
    using complete_lines_append [of "pending_line s @ ch" "concat chunks"]
    by (simp add: map_filter_append sse_lines_data)
  finally show ?case by simp
qed

lemma pending_line_Nil: "pending_line [] = []"
  by (simp add: pending_line_def)

lemma analyzeStream_data:
  "map fst (analyzeStream_events parse chunks)
     = List.map_filter (data_of parse) (complete_lines (concat chunks))"
  using fold_data [of parse "[]" "[]" chunks]
  by (simp add: analyzeStream_events_def pending_line_Nil)

text \<open>
  The parsed data values alone do not depend on how the body is cut into chunks: they
  are those of the complete lines of the whole body, in order.
\<close>

lemma analyzeStream_data_independent:
  "map fst (analyzeStream_events parse chunks) = map fst (analyzeStream_events parse [concat chunks])"
  by (simp add: analyzeStream_data)

text \<open>
  C4. The event type passed with a data line does depend on the chunks. The body
  \<open>event: a\<close>, \<open>data: 1\<close> read as one chunk delivers \<open>(1, a)\<close>; read as two chunks cut
  after the first line it delivers \<open>(1, null)\<close>, because \<open>currentEvent\<close> is reset at
  every chunk while the buffer is carried over.
\<close>

theorem analyzeStream_chunks_differ:
  "analyzeStream_events Some [''event: a\<newline>data: 1\<newline>''] = [(''1'', Some ''a'')]
   \<and> analyzeStream_events Some [''event: a\<newline>'', ''data: 1\<newline>''] = [(''1'', None)]
   \<and> concat [''event: a\<newline>'', ''data: 1\<newline>''] = ''event: a\<newline>data: 1\<newline>''"
  by (simp add: analyzeStream_events_def sse_chunk_def startsWith_def js_trim_def is_js_space_def)

section \<open>Properties of the backend pipeline\<close>


lemma diagram_path_sequence:
  "List.map_filter stage_of_state (diagram_path Initial a) = listed_sequence a"
  by (cases a) (simp_all add: diagram_path.simps List.map_filter_simps)

lemma table_path_sequence: "table_path Start a None = listed_sequence a"
  by (cases a) (simp_all add: table_path.simps next_stage_def Transition_Table_def)

lemma run_loop_Terminate:
  "next_stage (current rs) (run_action rs) (last_status rs) = Terminate
     \<Longrightarrow> run_loop stages rs w = complete_run rs w"
  by (subst run_loop.simps) simp

lemma run_loop_failure:
  "next_stage (current rs) (run_action rs) (last_status rs) = Terminate_failure
     \<Longrightarrow> run_loop stages rs w = fail_run rs w"
  by (subst run_loop.simps) simp

lemma run_loop_Next_ok:
  "next_stage (current rs) (run_action rs) (last_status rs) = Next s
     \<Longrightarrow> stages s (rs\<lparr>current := At s\<rparr>) = Inr p
     \<Longrightarrow> run_loop stages rs w =
           run_loop stages (after_stage s (Inr p) rs w)
             (publish (run_id rs) stage_complete (Some s)
                (Some (result_of s (Inr p) (begin_stage (run_id rs) s w)))
                (save (after_stage s (Inr p) rs w) (begin_stage (run_id rs) s w)))"
  by (subst run_loop.simps) (simp add: Let_def after_stage_def)

lemma run_loop_Next_fail:
  "next_stage (current rs) (run_action rs) (last_status rs) = Next s
     \<Longrightarrow> stages s (rs\<lparr>current := At s\<rparr>) = Inl d
     \<Longrightarrow> run_loop stages rs w =
           fail_run (after_stage s (Inl d) rs w)
             (publish (run_id rs) stage_error (Some s)
                (Some (result_of s (Inl d) (begin_stage (run_id rs) s w)))
                (save (after_stage s (Inl d) rs w) (begin_stage (run_id rs) s w)))"
  by (subst run_loop.simps) (simp add: Let_def after_stage_def)

lemma after_stage_simps [simp]:
  "run_id (after_stage s out rs w) = run_id rs"
  "run_action (after_stage s out rs w) = run_action rs"
  "current (after_stage s out rs w) = At s"
  "run_status (after_stage s out rs w) = run_status rs"
  "stage_results (after_stage s out rs w) = stage_results rs @ [result_of s out (begin_stage (run_id rs) s w)]"
  by (simp_all add: after_stage_def)

lemma result_of_simps [simp]:
  "stage_name (result_of s out w) = s"
  "outcome (result_of s (Inr p) w) = completed"
  "outcome (result_of s (Inl d) w) = failed"
  by (simp_all add: result_of_def split: sum.splits)

lemma world_simps [simp]:
  "invocations (publish rid k so p w) = invocations w"
  "invocations (save rs w) = invocations w"
  "invocations (begin_stage rid s w) = invocations w @ [(rid, s)]"
  "locks (publish rid k so p w) = locks w"
  "locks (save rs w) = locks w"
  "locks (begin_stage rid s w) = locks w"
  "store (publish rid k so p w) = store w"
  "store (begin_stage rid s w) = store w"
  by (simp_all add: publish_def save_def begin_stage_def Let_def)

lemma last_status_eq:
  "last_status rs = (if stage_results rs = [] then None else Some (outcome (last (stage_results rs))))"
  by (simp add: last_status_def split: list.splits)

lemma last_status_update [simp]:
  "last_status (rs\<lparr>run_status := x\<rparr>) = last_status rs"
  "last_status (rs\<lparr>current := y\<rparr>) = last_status rs"
  by (simp_all add: last_status_def)

lemma last_status_after [simp]:
  "last_status (after_stage s (Inr p) rs w) = Some completed"
  "last_status (after_stage s (Inl d) rs w) = Some failed"
  by (simp_all add: last_status_eq)

lemma next_stage_failure:
  "next_stage cur a lastStatus = Terminate_failure \<longleftrightarrow> lastStatus = Some failed"
  by (cases cur rule: pointer_rank.cases; cases a)
    (auto simp: next_stage_def Transition_Table_def)

lemma run_loop_follows_table:
  assumes ok: "\<forall>s rs. \<exists>p. stages s rs = Inr p"
  shows "last_status rs \<noteq> Some failed \<Longrightarrow>
     map stage_name (stage_results (fst (run_loop stages rs w)))
        = map stage_name (stage_results rs) @ table_path (current rs) (run_action rs) (last_status rs)
     \<and> invocations (snd (run_loop stages rs w))
        = invocations w @ map (Pair (run_id rs)) (table_path (current rs) (run_action rs) (last_status rs))
     \<and> run_status (fst (run_loop stages rs w)) = Completed
     \<and> run_id (fst (run_loop stages rs w)) = run_id rs"
proof (induction "3 - pointer_rank (current rs)" arbitrary: rs w rule: less_induct)
  case less
  show ?case
  proof (cases "next_stage (current rs) (run_action rs) (last_status rs)")
    case (Next s)
    from ok obtain p where p: "stages s (rs\<lparr>current := At s\<rparr>) = Inr p" by blast
    have r: "pointer_rank (current rs) < pointer_rank (At s)" using Next by (rule next_stage_rank)
    have r3: "pointer_rank (At s) \<le> 3" by (cases s) auto
    let ?rs2 = "after_stage s (Inr p) rs w"
    have m: "3 - pointer_rank (current ?rs2) < 3 - pointer_rank (current rs)"
      using r r3 by simp
    have ls: "last_status ?rs2 \<noteq> Some failed" by simp
    note IH = less.hyps [OF m ls]
    have tp: "table_path (current rs) (run_action rs) (last_status rs)
         = s # table_path (At s) (run_action rs) (Some completed)"
      by (subst table_path.simps) (simp add: Next)
    show ?thesis
      unfolding run_loop_Next_ok [of rs s stages p w, OF Next p] tp
      using IH by simp
  next
    case Terminate
    have tp: "table_path (current rs) (run_action rs) (last_status rs) = []"
      by (subst table_path.simps) (simp add: Terminate)
    show ?thesis
      unfolding run_loop_Terminate [OF Terminate] tp
      by (simp add: complete_run_def Let_def)
  next
    case Terminate_failure
    with less.prems show ?thesis
      by (simp add: next_stage_failure)
  qed
qed


lemma foldr_max_ge: "x \<in> set xs \<Longrightarrow> x \<le> foldr max xs (b::nat)"
  by (induction xs) auto

lemma fresh_id_unlocked: "fresh_id w \<notin> set (locks w)"
proof
  assume "fresh_id w \<in> set (locks w)"
  then have "fresh_id w \<in> set (map fst (store w) @ locks w)" by simp
  from foldr_max_ge [OF this, of 0] show False by (simp add: fresh_id_def)
qed

lemma history_save:
  "history (save rs w) rid =
     (if rid = run_id rs
      then history w rid @ [\<lparr>snapshot = rs, seq = Suc (length (history w rid)), saved_at = ticks w\<rparr>]
      else history w rid)"
  by (simp add: history_def save_def update_conv')

lemma latest_eq:
  "latest w rid = (if history w rid = [] then Inl CheckpointNotFoundError
                   else Inr (snapshot (last (history w rid))))"
  by (simp add: latest_def split: list.splits)

lemma latest_save: "latest (save rs w) (run_id rs) = Inr rs"
  by (simp add: latest_eq history_save)

lemma latest_store: "store w' = store w \<Longrightarrow> latest w' rid = latest w rid"
  by (simp add: latest_def history_def)

lemma latest_publish [simp]: "latest (publish rid k so p w) r = latest w r"
  by (rule latest_store) simp

lemma fail_run_simps [simp]:
  "fst (fail_run rs w) = rs\<lparr>run_status := Failed\<rparr>"
  "store (snd (fail_run rs w)) = store w"
  "locks (snd (fail_run rs w)) = locks w"
  "invocations (snd (fail_run rs w)) = invocations w"
  "latest (snd (fail_run rs w)) r = latest w r"
  by (simp_all add: fail_run_def)

lemma complete_run_simps [simp]:
  "fst (complete_run rs w) = rs\<lparr>run_status := Completed\<rparr>"
  "locks (snd (complete_run rs w)) = locks w"
  "invocations (snd (complete_run rs w)) = invocations w"
  "latest (snd (complete_run rs w)) (run_id rs) = Inr (rs\<lparr>run_status := Completed\<rparr>)"
  using latest_save [of "rs\<lparr>run_status := Completed\<rparr>" w]
  by (simp_all add: complete_run_def Let_def)

lemma run_loop_outcome:
  "run_id (fst (run_loop stages rs w)) = run_id rs
   \<and> locks (snd (run_loop stages rs w)) = locks w
   \<and> run_status (fst (run_loop stages rs w)) \<noteq> Running
   \<and> (run_status (fst (run_loop stages rs w)) = Completed
        \<longrightarrow> latest (snd (run_loop stages rs w)) (run_id rs) = Inr (fst (run_loop stages rs w)))
   \<and> (run_status (fst (run_loop stages rs w)) = Failed
        \<longrightarrow> last_status (fst (run_loop stages rs w)) = Some failed
            \<and> (latest (snd (run_loop stages rs w)) (run_id rs)
                  = Inr ((fst (run_loop stages rs w))\<lparr>run_status := run_status rs\<rparr>)
               \<or> (store (snd (run_loop stages rs w)) = store w
                   \<and> fst (run_loop stages rs w) = rs\<lparr>run_status := Failed\<rparr>)))"
proof (induction "3 - pointer_rank (current rs)" arbitrary: rs w rule: less_induct)
  case less
  show ?case
  proof (cases "next_stage (current rs) (run_action rs) (last_status rs)")
    case (Next s)
    have r: "pointer_rank (current rs) < pointer_rank (At s)" using Next by (rule next_stage_rank)
    have r3: "pointer_rank (At s) \<le> 3" by (cases s) auto
    show ?thesis
    proof (cases "stages s (rs\<lparr>current := At s\<rparr>)")
      case (Inr p)
      let ?rs2 = "after_stage s (Inr p) rs w"
      let ?w2 = "publish (run_id rs) stage_complete (Some s)
                (Some (result_of s (Inr p) (begin_stage (run_id rs) s w)))
                (save ?rs2 (begin_stage (run_id rs) s w))"
      have m: "3 - pointer_rank (current ?rs2) < 3 - pointer_rank (current rs)"
        using r r3 by simp
      note IH = less.hyps [OF m, of ?w2]
      have eq: "run_loop stages rs w = run_loop stages ?rs2 ?w2"
        by (rule run_loop_Next_ok [of rs s stages p w, OF Next Inr])
      have nf: "fst (run_loop stages ?rs2 ?w2) = ?rs2\<lparr>run_status := Failed\<rparr>
          \<Longrightarrow> last_status (fst (run_loop stages ?rs2 ?w2)) \<noteq> Some failed"
        by simp
      show ?thesis
        unfolding eq using IH nf by auto
    next
      case (Inl d)
      let ?rs2 = "after_stage s (Inl d) rs w"
      have eq: "run_loop stages rs w = fail_run ?rs2
             (publish (run_id rs) stage_error (Some s)
                (Some (result_of s (Inl d) (begin_stage (run_id rs) s w)))
                (save ?rs2 (begin_stage (run_id rs) s w)))"
        by (rule run_loop_Next_fail [of rs s stages d w, OF Next Inl])
      have "latest (save ?rs2 (begin_stage (run_id rs) s w)) (run_id rs) = Inr ?rs2"
        using latest_save [of ?rs2] by simp
      moreover have "?rs2\<lparr>run_status := Failed, run_status := run_status rs\<rparr> = ?rs2"
        by (simp add: after_stage_def)
      ultimately show ?thesis
        unfolding eq by simp
    qed
  next
    case Terminate
    show ?thesis
      unfolding run_loop_Terminate [OF Terminate] by simp
  next
    case Terminate_failure
    then have "last_status rs = Some failed" by (simp add: next_stage_failure)
    then show ?thesis
      unfolding run_loop_failure [OF Terminate_failure] by simp
  qed
qed


lemma locked_run_free:
  "run_id rs \<notin> set (locks w) \<Longrightarrow>
   locked_run stages rs w =
     (Inr (fst (run_loop stages rs (w\<lparr>locks := run_id rs # locks w\<rparr>))),
      (snd (run_loop stages rs (w\<lparr>locks := run_id rs # locks w\<rparr>)))
        \<lparr>locks := removeAll (run_id rs) (locks w)\<rparr>)"
  using run_loop_outcome [of stages rs "w\<lparr>locks := run_id rs # locks w\<rparr>"]
  by (simp add: locked_run_def split_beta)

lemma init_run_simps [simp]:
  "run_id (init_run rid t a) = rid"
  "run_action (init_run rid t a) = a"
  "current (init_run rid t a) = Start"
  "stage_results (init_run rid t a) = []"
  "run_status (init_run rid t a) = Running"
  "last_status (init_run rid t a) = None"
  by (simp_all add: init_run_def last_status_def)

lemma execute_fresh_completes:
  assumes ok: "\<forall>s rs. \<exists>p. stages s rs = Inr p" and t: "ticket_ref t \<noteq> []"
  shows "\<exists>rs w'. execute stages t (Some a) None w = (Inr rs, w')
      \<and> map stage_name (stage_results rs) = table_path Start a None
      \<and> invocations w' = invocations w @ map (Pair (run_id rs)) (table_path Start a None)
      \<and> run_status rs = Completed"
proof -
  let ?rs0 = "init_run (fresh_id w) t a"
  let ?w0 = "w\<lparr>locks := run_id ?rs0 # locks w\<rparr>"
  have free: "run_id ?rs0 \<notin> set (locks w)"
    by (simp add: fresh_id_unlocked)
  have ex: "execute stages t (Some a) None w = locked_run stages ?rs0 w"
    using t by (simp add: execute_def)
  have "last_status ?rs0 \<noteq> Some failed" by simp
  from run_loop_follows_table [OF ok this, of ?w0]
  show ?thesis
    unfolding ex locked_run_free [OF free] by simp
qed

text \<open>
  C1. For each of the four actions, a fresh run in which every stage completes
  invokes exactly the stages of the listed sequence, in that order, and records their
  results in that order; this sequence is the path through the Transition Table, and
  it is also the path through the state diagram of README.
\<close>

theorem pipeline_stage_sequence:
  assumes ok: "\<forall>s rs. \<exists>p. stages s rs = Inr p" and t: "ticket_ref t \<noteq> []"
  shows "\<exists>rs w'. execute stages t (Some a) None w = (Inr rs, w')
      \<and> map stage_name (stage_results rs) = listed_sequence a
      \<and> invocations w' = invocations w @ map (Pair (run_id rs)) (listed_sequence a)
      \<and> run_status rs = Completed
      \<and> table_path Start a None = listed_sequence a
      \<and> List.map_filter stage_of_state (diagram_path Initial a) = listed_sequence a"
  using execute_fresh_completes [OF ok t, of a w]
  by (simp add: table_path_sequence diagram_path_sequence)

theorem pipeline_stage_sequence_witness:
  "\<exists>rs w'. execute (\<lambda>s rs. Inr ''ok'') example_ticket (Some full_pipeline) None empty_world
              = (Inr rs, w')
      \<and> map stage_name (stage_results rs) = [Requirement, Code, Test]
      \<and> map snd (invocations w') = [Requirement, Code, Test]
      \<and> run_status rs = Completed"
proof -
  have ok: "\<forall>s rs. \<exists>p. (Inr ''ok'' :: string + string) = Inr p" by simp
  have t: "ticket_ref example_ticket \<noteq> []" by (simp add: example_ticket_def)
  from pipeline_stage_sequence [of "\<lambda>s rs. Inr ''ok''" example_ticket full_pipeline empty_world,
      OF ok t]
  obtain rs w' where
    "execute (\<lambda>s rs. Inr ''ok'') example_ticket (Some full_pipeline) None empty_world = (Inr rs, w')"
    "map stage_name (stage_results rs) = listed_sequence full_pipeline"
    "invocations w' = invocations empty_world @ map (Pair (run_id rs)) (listed_sequence full_pipeline)"
    "run_status rs = Completed"
    by blast
  then show ?thesis by (simp add: empty_world_def)
qed





lemma set_update_subset: "set (AList.update k v al) \<subseteq> insert (k, v) (set al)"
  by (induction al) auto

lemma store_consistent_history:
  "store_consistent w \<Longrightarrow> c \<in> set (history w rid) \<Longrightarrow> run_id (snapshot c) = rid"
proof -
  assume c: "store_consistent w" and m: "c \<in> set (history w rid)"
  from m obtain cs where cs: "map_of (store w) rid = Some cs" "c \<in> set cs"
    by (cases "map_of (store w) rid") (auto simp: history_def)
  then have "(rid, cs) \<in> set (store w)" by (auto dest: map_of_SomeD)
  with c cs show ?thesis
    by (auto simp: store_consistent_def list_all_iff)
qed

lemma store_consistent_save: "store_consistent w \<Longrightarrow> store_consistent (save rs w)"
proof -
  assume c: "store_consistent w"
  let ?cs = "history w (run_id rs)
        @ [\<lparr>snapshot = rs, seq = Suc (length (history w (run_id rs))), saved_at = ticks w\<rparr>]"
  have new: "\<forall>c \<in> set ?cs. run_id (snapshot c) = run_id rs"
    using store_consistent_history [OF c] by auto
  have "set (store (save rs w)) \<subseteq> insert (run_id rs, ?cs) (set (store w))"
    by (simp add: save_def set_update_subset)
  with c new show ?thesis
    unfolding store_consistent_def list_all_iff by fastforce
qed

lemma store_consistent_store:
  "store w' = store w \<Longrightarrow> store_consistent w' = store_consistent w"
  by (simp add: store_consistent_def)

lemma store_consistent_simps [simp]:
  "store_consistent (publish rid k so p w) = store_consistent w"
  "store_consistent (begin_stage rid s w) = store_consistent w"
  "store_consistent (snd (fail_run rs w)) = store_consistent w"
  "store_consistent (w\<lparr>locks := l\<rparr>) = store_consistent w"
  by (simp_all add: store_consistent_def)

lemma run_loop_store_consistent:
  "store_consistent w \<Longrightarrow> store_consistent (snd (run_loop stages rs w))"
proof (induction "3 - pointer_rank (current rs)" arbitrary: rs w rule: less_induct)
  case less
  show ?case
  proof (cases "next_stage (current rs) (run_action rs) (last_status rs)")
    case (Next s)
    have r: "pointer_rank (current rs) < pointer_rank (At s)" using Next by (rule next_stage_rank)
    have r3: "pointer_rank (At s) \<le> 3" by (cases s) auto
    have b: "store_consistent (begin_stage (run_id rs) s w)"
      using less.prems by simp
    show ?thesis
    proof (cases "stages s (rs\<lparr>current := At s\<rparr>)")
      case (Inr p)
      let ?rs2 = "after_stage s (Inr p) rs w"
      let ?w2 = "publish (run_id rs) stage_complete (Some s)
                (Some (result_of s (Inr p) (begin_stage (run_id rs) s w)))
                (save ?rs2 (begin_stage (run_id rs) s w))"
      have m: "3 - pointer_rank (current ?rs2) < 3 - pointer_rank (current rs)"
        using r r3 by simp
      have "store_consistent ?w2"
        using store_consistent_save [OF b, of ?rs2] by simp
      from less.hyps [OF m this] show ?thesis
        unfolding run_loop_Next_ok [of rs s stages p w, OF Next Inr] .
    next
      case (Inl d)
      let ?rs2 = "after_stage s (Inl d) rs w"
      show ?thesis
        unfolding run_loop_Next_fail [of rs s stages d w, OF Next Inl]
        using store_consistent_save [OF b, of ?rs2] by simp
    qed
  next
    case Terminate
    show ?thesis
      unfolding run_loop_Terminate [OF Terminate]
      using store_consistent_save [OF less.prems, of "rs\<lparr>run_status := Completed\<rparr>"]
      by (simp add: complete_run_def Let_def)
  next
    case Terminate_failure
    show ?thesis
      unfolding run_loop_failure [OF Terminate_failure]
      using less.prems by simp
  qed
qed

lemma locked_run_store_consistent:
  "store_consistent w \<Longrightarrow> store_consistent (snd (locked_run stages rs w))"
proof (cases "run_id rs \<in> set (locks w)")
  case True
  assume "store_consistent w"
  with True show ?thesis by (simp add: locked_run_def)
next
  case False
  assume c: "store_consistent w"
  let ?w0 = "w\<lparr>locks := run_id rs # locks w\<rparr>"
  have "store_consistent ?w0"
    using c by simp
  then have "store_consistent (snd (run_loop stages rs ?w0))"
    by (rule run_loop_store_consistent)
  moreover have "store (snd (locked_run stages rs w)) = store (snd (run_loop stages rs ?w0))"
    by (simp add: locked_run_free [OF False])
  ultimately show ?thesis
    using store_consistent_store [of "snd (locked_run stages rs w)" "snd (run_loop stages rs ?w0)"]
    by blast
qed

lemma execute_store_consistent:
  "store_consistent w \<Longrightarrow> store_consistent (snd (execute stages t a runId w))"
  by (simp add: execute_def locked_run_store_consistent split: option.splits sum.splits)




text \<open>
  What a single call does when the lock of a run that is not terminal is held: it is
  refused with \<open>ConcurrentRunError\<close> and changes nothing.
\<close>

lemma locked_execute_refused:
  assumes "latest w rid = Inr rs" and "run_status rs = Running" and "run_id rs \<in> set (locks w)"
    and "ticket_ref t \<noteq> []"
  shows "execute stages t (Some a) (Some rid) w = (Inl ConcurrentRunError, w)"
  using assms by (simp add: execute_def locked_run_def)

section \<open>Properties of the diff parser and writer\<close>


lemma is_digit_digit_char: "d < 10 \<Longrightarrow> is_digit (digit_char d)"
  by (simp add: is_digit_def digit_char_def)

lemma digit_value: "d < 10 \<Longrightarrow> (of_char (digit_char d) :: nat) - 48 = d"
  by (simp add: digit_char_def)

lemma string_of_nat_digits: "list_all is_digit (string_of_nat n)"
  by (induction n rule: string_of_nat.induct)
    (subst string_of_nat.simps, simp add: is_digit_digit_char)

lemma string_of_nat_nonempty: "string_of_nat n \<noteq> []"
  by (subst string_of_nat.simps) simp

lemma nat_of_digits_append:
  "nat_of_digits acc (xs @ ys) = nat_of_digits (nat_of_digits acc xs) ys"
  by (induction xs arbitrary: acc) simp_all

lemma nat_of_string_of_nat: "nat_of_digits 0 (string_of_nat n) = n"
proof (induction n rule: string_of_nat.induct)
  case (1 n)
  show ?case
  proof (cases "n < 10")
    case True
    then show ?thesis by (subst string_of_nat.simps) (simp add: digit_value)
  next
    case False
    with 1 have "nat_of_digits 0 (string_of_nat (n div 10)) = n div 10" by simp
    with False show ?thesis
      by (subst string_of_nat.simps) (simp add: nat_of_digits_append digit_value)
  qed
qed

lemma takeWhile_digits:
  "\<not> is_digit c \<Longrightarrow> takeWhile is_digit (string_of_nat n @ c # r) = string_of_nat n"
  using string_of_nat_digits [of n] by (simp add: takeWhile_append2 list_all_iff)

lemma dropWhile_digits:
  "\<not> is_digit c \<Longrightarrow> dropWhile is_digit (string_of_nat n @ c # r) = c # r"
  using string_of_nat_digits [of n] by (simp add: dropWhile_append2 list_all_iff)

lemma not_digit [simp]: "\<not> is_digit CHR '',''" "\<not> is_digit CHR '' ''"
  by (simp_all add: is_digit_def)

lemma match_hunk_at_head:
  "header h = [] \<Longrightarrow>
   match_hunk_at (hunk_head h) =
     Some (string_of_nat (oldStart h), string_of_nat (oldCount h),
           string_of_nat (newStart h), string_of_nat (newCount h), [])"
  by (simp add: match_hunk_at_def hunk_head_def startsWith_def Let_def takeWhile_digits
      dropWhile_digits string_of_nat_nonempty dot_run_def)

lemma match_hunk_head:
  "header h = [] \<Longrightarrow>
   match_hunk (hunk_head h) =
     Some (string_of_nat (oldStart h), string_of_nat (oldCount h),
           string_of_nat (newStart h), string_of_nat (newCount h), [])"
proof -
  assume h: "header h = []"
  obtain cs where cs: "hunk_head h = CHR ''@'' # cs" by (simp add: hunk_head_def)
  show ?thesis
    using match_hunk_at_head [OF h] by (simp add: cs)
qed

lemma parseInt_string_of_nat: "parseInt (string_of_nat n) = n"
  by (simp add: parseInt_def nat_of_string_of_nat)

lemma parseInt_or_1_string_of_nat: "0 < n \<Longrightarrow> parseInt_or_1 (string_of_nat n) = n"
  by (simp add: parseInt_or_1_def parseInt_string_of_nat string_of_nat_nonempty)

lemma split_at_last_eq: "split_at_last sep s = Some (a, b) \<Longrightarrow> s = a @ sep @ b \<and> b \<noteq> []"
proof (induction s arbitrary: a b)
  case Nil then show ?case by simp
next
  case (Cons c cs)
  show ?case
  proof (cases "split_at_last sep cs")
    case None
    with Cons.prems have st: "startsWith (c # cs) sep" and len: "length sep < length (c # cs)"
      and ab: "a = []" "b = drop (length sep) (c # cs)"
      by (auto split: if_splits)
    from st have "take (length sep) (c # cs) = sep" by (simp add: startsWith_def)
    then have "c # cs = sep @ drop (length sep) (c # cs)"
      by (metis append_take_drop_id)
    with ab len show ?thesis by simp
  next
    case (Some p)
    obtain a' b' where p: "p = (a', b')" by (cases p)
    with Some Cons.prems have "a = c # a'" "b = b'" by simp_all
    with Cons.IH [of a' b'] Some p show ?thesis by simp
  qed
qed

lemma dot_run_no_terminator: "\<forall>c \<in> set (dot_run s). \<not> is_line_terminator c"
  by (auto simp: dot_run_def dest: set_takeWhileD)

lemma dot_run_id: "\<forall>c \<in> set s. \<not> is_line_terminator c \<Longrightarrow> dot_run s = s"
  by (simp add: dot_run_def)

lemma match_git_at_stable:
  assumes "match_git_at s = Some (a, b)"
  shows "match_git_at (git_head a b) = Some (a, b)
       \<and> (\<forall>c \<in> set (a @ b). \<not> is_line_terminator c)"
proof -
  from assms have st: "startsWith s ''diff --git a/''"
    by (auto simp: match_git_at_def split: if_splits)
  from assms st obtain c cs a' where run: "dot_run (drop 13 s) = c # cs"
    and sp: "split_at_last '' b/'' cs = Some (a', b)" and a: "a = c # a'"
    by (auto simp: match_git_at_def split: list.splits option.splits)
  from split_at_last_eq [OF sp] have cs: "cs = a' @ '' b/'' @ b" by simp
  have nt: "\<forall>x \<in> set (c # cs). \<not> is_line_terminator x"
    using dot_run_no_terminator [of "drop 13 s"] run by simp
  have "drop 13 (git_head a b) = c # cs"
    by (simp add: git_head_def a cs)
  then have "dot_run (drop 13 (git_head a b)) = c # cs"
    using nt by (simp add: dot_run_id)
  then have "match_git_at (git_head a b) = Some (a, b)"
    using sp a by (simp add: match_git_at_def git_head_def startsWith_def)
  moreover have "\<forall>x \<in> set (a @ b). \<not> is_line_terminator x"
    using nt by (auto simp: a cs)
  ultimately show ?thesis by simp
qed

lemma match_git_head: "match_git_at (git_head a b) = Some r \<Longrightarrow> match_git (git_head a b) = Some r"
  by (simp add: git_head_def)

lemma match_git_stable:
  "match_git s = Some (a, b) \<Longrightarrow>
   match_git (git_head a b) = Some (a, b) \<and> (\<forall>c \<in> set (a @ b). \<not> is_line_terminator c)"
proof (induction s)
  case Nil
  then show ?case
    using match_git_at_stable [of "[]" a b] match_git_head [of a b] by simp
next
  case (Cons c cs)
  show ?case
  proof (cases "match_git_at (c # cs)")
    case None
    with Cons show ?thesis by simp
  next
    case (Some r)
    with Cons.prems have "match_git_at (c # cs) = Some (a, b)" by simp
    from match_git_at_stable [OF this] show ?thesis
      using match_git_head [of a b] by simp
  qed
qed

lemma match_git_unknown:
  "match_git (git_head ''unknown'' ''unknown'') = Some (''unknown'', ''unknown'')"
  by (simp add: git_head_def match_git_at_def startsWith_def dot_run_def is_line_terminator_def)


subsection \<open>Every file that parseDiff returns is well formed\<close>

lemma js_split_lines_no_sep: "\<forall>l \<in> set (js_split c s). c \<notin> set l"
proof (induction s)
  case Nil show ?case by simp
next
  case (Cons x s)
  obtain l ls where s: "js_split c s = l # ls"
    using js_split_ne [of c s] by (cases "js_split c s") auto
  with Cons show ?case by auto
qed

lemma count_lines_simps [simp]:
  "count_lines ty [] = 0"
  "count_lines ty (hs @ hs') = count_lines ty hs + count_lines ty hs'"
  "count_lines ty [h] = length (filter (\<lambda>l. line_type l = ty) (lines h))"
  by (simp_all add: count_lines_def)

lemma wf_type_of_line:
  "type_of_line line = ''add'' \<or> type_of_line line = ''del'' \<or> type_of_line line = ''context''"
  by (simp add: type_of_line_def)

lemma wf_push_line:
  assumes f: "wf_file f" and ne: "hunks f \<noteq> []" and nl: "CHR 0x0A \<notin> set line"
  shows "wf_file (push_line line f)"
proof -
  obtain hs h where hs: "hunks f = hs @ [h]"
    using ne by (metis append_butlast_last_id)
  have d: "CHR 0x0A \<notin> set (drop 1 line)"
    using nl by (auto dest: in_set_dropD)
  have neq: "''add'' \<noteq> ''del''" by simp
  show ?thesis
    using f d wf_type_of_line [of line]
    by (auto simp: wf_file_def push_line_def Let_def hs wf_hunk_def wf_line_def)
qed

lemma parseInt_or_1_pos: "0 < parseInt_or_1 d"
  by (simp add: parseInt_or_1_def)

lemma terminator_newline: "\<not> is_line_terminator c \<Longrightarrow> c \<noteq> CHR 0x0A"
  by (auto simp: is_line_terminator_def)

lemma wf_new_file:
  "wf_file (case match_git line of
              Some (a, b) \<Rightarrow> \<lparr>oldPath = a, newPath = b, hunks = [], additions = 0, deletions = 0\<rparr>
            | None \<Rightarrow> \<lparr>oldPath = ''unknown'', newPath = ''unknown'', hunks = [],
                      additions = 0, deletions = 0\<rparr>)"
proof (cases "match_git line")
  case None
  then show ?thesis by (simp add: wf_file_def match_git_unknown)
next
  case (Some p)
  obtain a b where p: "p = (a, b)" by (cases p)
  from match_git_stable [of line a b] Some p
  have "match_git (git_head a b) = Some (a, b)" and "\<forall>c \<in> set (a @ b). \<not> is_line_terminator c"
    by simp_all
  then have "match_git (git_head a b) = Some (a, b)" and "CHR 0x0A \<notin> set (a @ b)"
    using terminator_newline by blast+
  with Some p show ?thesis by (simp add: wf_file_def)
qed

lemma wf_parse_line:
  assumes st: "wf_state st" and nl: "CHR 0x0A \<notin> set line"
  shows "wf_state (parse_line st line)"
proof (cases "startsWith line ''diff --git''")
  case True
  then show ?thesis
    using st wf_new_file [of line]
    by (simp add: parse_line_def wf_state_def file_list_def)
next
  case False
  show ?thesis
  proof (cases "startsWith line ''@@''")
    case True
    show ?thesis
    proof (cases "currentFile st")
      case None
      with True False st show ?thesis
        by (simp add: parse_line_def split: option.splits prod.splits)
    next
      case (Some f)
      with st have f: "wf_file f" by (simp add: wf_state_def file_list_def)
      show ?thesis
      proof (cases "match_hunk line")
        case None
        with True False Some st show ?thesis by (simp add: parse_line_def)
      next
        case (Some r)
        obtain d1 d2 d3 d4 rest where r: "r = (d1, d2, d3, d4, rest)" by (cases r)
        have "wf_file (f\<lparr>hunks := hunks f @
                            [\<lparr>oldStart = parseInt d1, oldCount = parseInt_or_1 d2,
                              newStart = parseInt d3, newCount = parseInt_or_1 d4,
                              header = rest, lines = []\<rparr>]\<rparr>)"
          using f by (simp add: wf_file_def wf_hunk_def parseInt_or_1_pos)
        with True False Some r \<open>currentFile st = Some f\<close> st show ?thesis
          by (simp add: parse_line_def wf_state_def file_list_def)
      qed
    qed
  next
    case nohunk: False
    show ?thesis
    proof (cases "currentFile st")
      case None
      with False nohunk st show ?thesis by (simp add: parse_line_def)
    next
      case (Some f)
      with st have f: "wf_file f" by (simp add: wf_state_def file_list_def)
      show ?thesis
      proof (cases "hunks f = []")
        case True
        with False nohunk Some st show ?thesis by (simp add: parse_line_def)
      next
        case ne: False
        from wf_push_line [OF f ne nl] False nohunk Some ne st show ?thesis
          by (simp add: parse_line_def wf_state_def file_list_def)
      qed
    qed
  qed
qed

lemma wf_foldl_parse_line:
  "wf_state st \<Longrightarrow> \<forall>l \<in> set ls. CHR 0x0A \<notin> set l \<Longrightarrow> wf_state (foldl parse_line st ls)"
  by (induction ls arbitrary: st) (simp_all add: wf_parse_line)

lemma wf_parseDiff: "list_all wf_file (parseDiff t)"
proof (cases "t = []")
  case True then show ?thesis by (simp add: parseDiff_def)
next
  case False
  have "wf_state \<lparr>files = [], currentFile = None\<rparr>"
    by (simp add: wf_state_def file_list_def)
  from wf_foldl_parse_line [OF this js_split_lines_no_sep [of "CHR 0x0A" t]]
  show ?thesis using False
    by (simp add: parseDiff_def Let_def wf_state_def)
qed


subsection \<open>The lines of a written patch\<close>

lemma js_split_no_sep: "c \<notin> set s \<Longrightarrow> js_split c s = [s]"
  by (induction s) auto

lemma js_split_sep_append: "js_split c (s @ c # t) = js_split c s @ js_split c t"
proof (induction s)
  case Nil show ?case by simp
next
  case (Cons x s)
  obtain l ls where s: "js_split c s = l # ls"
    using js_split_ne [of c s] by (cases "js_split c s") auto
  with Cons show ?case by simp
qed

lemma js_split_join:
  "xs \<noteq> [] \<Longrightarrow> js_split c (js_join [c] xs) = concat (map (js_split c) xs)"
  by (induction "[c]" xs rule: js_join.induct) (simp_all add: js_split_sep_append)

lemma js_split_join_lines:
  "xs \<noteq> [] \<Longrightarrow> \<forall>x \<in> set xs. c \<notin> set x \<Longrightarrow> js_split c (js_join [c] xs) = xs"
proof -
  assume ne: "xs \<noteq> []" and ns: "\<forall>x \<in> set xs. c \<notin> set x"
  have "concat (map (js_split c) xs) = xs"
    using ns by (induction xs) (simp_all add: js_split_no_sep)
  with js_split_join [OF ne] show ?thesis by simp
qed

lemma newline_not_digit: "list_all is_digit s \<Longrightarrow> CHR 0x0A \<notin> set s"
  by (auto simp: list_all_iff is_digit_def)

lemma hunk_head_no_newline: "header h = [] \<Longrightarrow> CHR 0x0A \<notin> set (hunk_head h)"
  using newline_not_digit [OF string_of_nat_digits]
  by (simp add: hunk_head_def)

lemma line_text_no_newline: "wf_line l \<Longrightarrow> CHR 0x0A \<notin> set (line_text l)"
  by (simp add: wf_line_def line_text_def)

lemma split_hunk_text:
  assumes "wf_hunk h" "header h = []" "lines h \<noteq> []"
  shows "js_split CHR 0x0A (hunk_text h) = hunk_lines h"
proof -
  have "js_split CHR 0x0A (js_join [CHR 0x0A] (map line_text (lines h))) = map line_text (lines h)"
    using assms by (intro js_split_join_lines) (auto simp: wf_hunk_def list_all_iff line_text_no_newline)
  then show ?thesis
    using hunk_head_no_newline [OF assms(2)]
    by (simp add: hunk_text_def hunk_lines_def js_split_sep_append js_split_no_sep)
qed

lemma git_head_no_newline: "CHR 0x0A \<notin> set (a @ b) \<Longrightarrow> CHR 0x0A \<notin> set (git_head a b)"
  by (simp add: git_head_def)

lemma split_file_text:
  assumes f: "wf_file f" and p: "\<forall>h \<in> set (hunks f). header h = [] \<and> lines h \<noteq> []"
  shows "js_split CHR 0x0A (file_text f) = file_lines f"
proof -
  have g: "CHR 0x0A \<notin> set (git_head (oldPath f) (newPath f))"
    using f by (intro git_head_no_newline) (simp add: wf_file_def)
  have hs: "\<forall>h \<in> set (hunks f). js_split CHR 0x0A (hunk_text h) = hunk_lines h"
    using f p by (auto simp: wf_file_def list_all_iff intro: split_hunk_text)
  show ?thesis
  proof (cases "hunks f = []")
    case True
    with g show ?thesis
      by (simp add: file_text_def file_lines_def js_split_sep_append js_split_no_sep)
  next
    case False
    then have "js_split CHR 0x0A (js_join [CHR 0x0A] (map hunk_text (hunks f)))
        = concat (map (js_split CHR 0x0A) (map hunk_text (hunks f)))"
      by (intro js_split_join) simp
    also have "\<dots> = concat (map hunk_lines (hunks f))"
      using hs by (simp add: map_idI cong: map_cong)
    finally show ?thesis
      using g False
      by (simp add: file_text_def file_lines_def js_split_sep_append js_split_no_sep)
  qed
qed

lemma split_patch_text:
  assumes ne: "fs \<noteq> []" and f: "list_all wf_file fs"
    and p: "\<forall>f \<in> set fs. \<forall>h \<in> set (hunks f). header h = [] \<and> lines h \<noteq> []"
  shows "js_split CHR 0x0A (patch_text fs) = concat (map file_lines fs)"
proof -
  have "js_split CHR 0x0A (js_join [CHR 0x0A] (map file_text fs))
        = concat (map (js_split CHR 0x0A) (map file_text fs))"
    using ne by (intro js_split_join) simp
  also have "\<dots> = concat (map file_lines fs)"
    using f p by (simp add: list_all_iff split_file_text cong: map_cong)
  finally show ?thesis by (simp add: patch_text_def)
qed


subsection \<open>Reading the written lines back\<close>

lemma line_text_read:
  assumes "wf_line l"
  shows "\<not> startsWith (line_text l) ''diff --git''" "\<not> startsWith (line_text l) ''@@''"
    "type_of_line (line_text l) = line_type l" "drop 1 (line_text l) = content l"
  using assms by (auto simp: wf_line_def line_text_def startsWith_def type_of_line_def)

lemma parse_line_text:
  assumes l: "wf_line l" and g: "hunks g = hs @ [h]"
  shows "parse_line \<lparr>files = F, currentFile = Some g\<rparr> (line_text l) =
     \<lparr>files = F,
      currentFile = Some (g\<lparr>hunks := hs @ [h\<lparr>lines := lines h @ [l]\<rparr>],
                            additions := additions g + length (filter (\<lambda>l. line_type l = ''add'') [l]),
                            deletions := deletions g + length (filter (\<lambda>l. line_type l = ''del'') [l])\<rparr>)\<rparr>"
  using line_text_read [OF l] g
  by (simp add: parse_line_def push_line_def Let_def)

lemma parse_line_texts:
  assumes ls: "list_all wf_line ls" and g: "hunks g = hs @ [h]"
  shows "foldl parse_line \<lparr>files = F, currentFile = Some g\<rparr> (map line_text ls) =
     \<lparr>files = F,
      currentFile = Some (g\<lparr>hunks := hs @ [h\<lparr>lines := lines h @ ls\<rparr>],
                            additions := additions g + length (filter (\<lambda>l. line_type l = ''add'') ls),
                            deletions := deletions g + length (filter (\<lambda>l. line_type l = ''del'') ls)\<rparr>)\<rparr>"
  using assms
proof (induction ls arbitrary: g h)
  case Nil
  then show ?case by simp
next
  case (Cons l ls)
  from Cons.prems have l: "wf_line l" and ls: "list_all wf_line ls" by simp_all
  let ?g = "g\<lparr>hunks := hs @ [h\<lparr>lines := lines h @ [l]\<rparr>],
               additions := additions g + length (filter (\<lambda>l. line_type l = ''add'') [l]),
               deletions := deletions g + length (filter (\<lambda>l. line_type l = ''del'') [l])\<rparr>"
  have hg: "hunks ?g = hs @ [h\<lparr>lines := lines h @ [l]\<rparr>]" by simp
  show ?case
    unfolding list.map foldl_Cons parse_line_text [OF l Cons.prems(2)]
    by (subst Cons.IH [OF ls hg]) simp
qed

lemma hunk_head_read:
  assumes h: "wf_hunk h" and p: "header h = []"
  shows "parse_line \<lparr>files = F, currentFile = Some g\<rparr> (hunk_head h) =
     \<lparr>files = F, currentFile = Some (g\<lparr>hunks := hunks g @ [h\<lparr>lines := []\<rparr>]\<rparr>)\<rparr>"
proof -
  have a: "\<not> startsWith (hunk_head h) ''diff --git''" and b: "startsWith (hunk_head h) ''@@''"
    by (simp_all add: hunk_head_def startsWith_def)
  have c: "\<lparr>oldStart = oldStart h, oldCount = oldCount h, newStart = newStart h,
            newCount = newCount h, header = [], lines = []\<rparr> = h\<lparr>lines := []\<rparr>"
    using p by simp
  show ?thesis
    using h a b c
    by (simp add: parse_line_def match_hunk_head [OF p] parseInt_string_of_nat
        parseInt_or_1_string_of_nat wf_hunk_def)
qed

lemma parse_hunk_lines:
  assumes h: "wf_hunk h" and p: "header h = []"
  shows "foldl parse_line \<lparr>files = F, currentFile = Some g\<rparr> (hunk_lines h) =
     \<lparr>files = F,
      currentFile = Some (g\<lparr>hunks := hunks g @ [h],
                            additions := additions g + count_lines ''add'' [h],
                            deletions := deletions g + count_lines ''del'' [h]\<rparr>)\<rparr>"
proof -
  let ?g = "g\<lparr>hunks := hunks g @ [h\<lparr>lines := []\<rparr>]\<rparr>"
  have hg: "hunks ?g = hunks g @ [h\<lparr>lines := []\<rparr>]" by simp
  have ls: "list_all wf_line (lines h)" using h by (simp add: wf_hunk_def)
  show ?thesis
    unfolding hunk_lines_def foldl_Cons hunk_head_read [OF h p]
    by (subst parse_line_texts [OF ls hg]) simp
qed

lemma parse_hunks_lines:
  assumes "list_all wf_hunk hs" and "\<forall>h \<in> set hs. header h = []"
  shows "foldl parse_line \<lparr>files = F, currentFile = Some g\<rparr> (concat (map hunk_lines hs)) =
     \<lparr>files = F,
      currentFile = Some (g\<lparr>hunks := hunks g @ hs,
                            additions := additions g + count_lines ''add'' hs,
                            deletions := deletions g + count_lines ''del'' hs\<rparr>)\<rparr>"
  using assms
proof (induction hs arbitrary: g)
  case Nil
  then show ?case by simp
next
  case (Cons h hs)
  from Cons.prems have h: "wf_hunk h" "header h = []"
    and hs: "list_all wf_hunk hs" "\<forall>h \<in> set hs. header h = []" by simp_all
  have split: "count_lines ty (h # hs) = count_lines ty [h] + count_lines ty hs" for ty
    using count_lines_simps(2) [of ty "[h]" hs] by simp
  show ?case
    unfolding list.map concat.simps foldl_append parse_hunk_lines [OF h]
    by (subst Cons.IH [OF hs]) (simp add: split)
qed

lemma git_head_read:
  assumes f: "wf_file f"
  shows "parse_line st (git_head (oldPath f) (newPath f)) =
     \<lparr>files = files st @ file_list (currentFile st),
      currentFile = Some (f\<lparr>hunks := [], additions := 0, deletions := 0\<rparr>)\<rparr>"
proof -
  have a: "startsWith (git_head (oldPath f) (newPath f)) ''diff --git''"
    by (simp add: git_head_def startsWith_def)
  have "\<lparr>oldPath = oldPath f, newPath = newPath f, hunks = [], additions = 0, deletions = 0\<rparr>
      = f\<lparr>hunks := [], additions := 0, deletions := 0\<rparr>" by simp
  with f a show ?thesis
    by (simp add: parse_line_def wf_file_def)
qed

lemma parse_file_lines:
  assumes f: "wf_file f" and p: "\<forall>h \<in> set (hunks f). header h = []"
  shows "foldl parse_line st (file_lines f) =
     \<lparr>files = files st @ file_list (currentFile st), currentFile = Some f\<rparr>"
proof (cases "hunks f = []")
  case True
  have e: "parse_line \<lparr>files = F, currentFile = Some f\<rparr> [] = \<lparr>files = F, currentFile = Some f\<rparr>" for F
    using True by (simp add: parse_line_def startsWith_def)
  have "f\<lparr>hunks := [], additions := 0, deletions := 0\<rparr> = f"
    using f True by (simp add: wf_file_def)
  with True show ?thesis
    by (simp add: file_lines_def git_head_read [OF f] e)
next
  case False
  let ?g = "f\<lparr>hunks := [], additions := 0, deletions := 0\<rparr>"
  have hs: "list_all wf_hunk (hunks f)" using f by (simp add: wf_file_def)
  have "?g\<lparr>hunks := hunks ?g @ hunks f,
            additions := additions ?g + count_lines ''add'' (hunks f),
            deletions := deletions ?g + count_lines ''del'' (hunks f)\<rparr> = f"
    using f by (simp add: wf_file_def)
  with False show ?thesis
    by (simp add: file_lines_def git_head_read [OF f] parse_hunks_lines [OF hs p])
qed

lemma parse_files_lines:
  assumes "list_all wf_file fs" and "\<forall>f \<in> set fs. \<forall>h \<in> set (hunks f). header h = []"
  shows "foldl parse_line st (concat (map file_lines fs)) =
     (if fs = [] then st
      else \<lparr>files = files st @ file_list (currentFile st) @ butlast fs,
            currentFile = Some (last fs)\<rparr>)"
  using assms
proof (induction fs arbitrary: st)
  case Nil
  then show ?case by simp
next
  case (Cons f fs)
  from Cons.prems have f: "wf_file f" "\<forall>h \<in> set (hunks f). header h = []"
    and fs: "list_all wf_file fs" "\<forall>f \<in> set fs. \<forall>h \<in> set (hunks f). header h = []"
    by simp_all
  show ?case
    unfolding list.map concat.simps foldl_append parse_file_lines [OF f]
    by (subst Cons.IH [OF fs]) (simp add: file_list_def)
qed

lemma patch_text_nonempty: "fs \<noteq> [] \<Longrightarrow> patch_text fs \<noteq> []"
proof -
  assume "fs \<noteq> []"
  then obtain f fs' where fs: "fs = f # fs'" by (cases fs) auto
  have "file_text f \<noteq> []" by (simp add: file_text_def git_head_def)
  then show ?thesis
    by (cases fs') (simp_all add: patch_text_def fs)
qed

lemma round_trip_wf:
  assumes f: "list_all wf_file fs"
    and p: "\<forall>f \<in> set fs. \<forall>h \<in> set (hunks f). header h = [] \<and> lines h \<noteq> []"
  shows "parseDiff (patch_text fs) = fs"
proof (cases "fs = []")
  case True
  then show ?thesis by (simp add: patch_text_def parseDiff_def)
next
  case False
  have p': "\<forall>f \<in> set fs. \<forall>h \<in> set (hunks f). header h = []" using p by blast
  show ?thesis
    using False patch_text_nonempty [OF False]
    by (simp add: parseDiff_def Let_def split_patch_text [OF False f p]
        parse_files_lines [OF f p'] file_list_def)
qed

text \<open>
  C9, as amended. When every hunk that parseDiff finds in a text has no header text,
  at least one line and numbers below \<open>2^53\<close>, writing the parsed files the way
  handleDownload does and parsing that text gives the same list of files again:
  paths, hunks, lines and counts.
\<close>

theorem parseDiff_round_trip:
  assumes "\<forall>f \<in> set (parseDiff t). \<forall>h \<in> set (hunks f). plain_hunk h"
  shows "parseDiff (patch_text (parseDiff t)) = parseDiff t"
  using assms by (intro round_trip_wf wf_parseDiff) (simp add: plain_hunk_def)


lemma string_of_nat_digit: "n < 10 \<Longrightarrow> string_of_nat n = [digit_char n]"
  by (subst string_of_nat.simps) simp

lemmas diff_eval =
  parseDiff_def parse_line_def push_line_def type_of_line_def file_list_def startsWith_def
  match_git_at_def match_hunk_at_def dot_run_def is_line_terminator_def is_digit_def
  parseInt_def parseInt_or_1_def Let_def

lemma digit_char_simps:
  "digit_char 0 = CHR ''0''" "digit_char 1 = CHR ''1''" "digit_char 2 = CHR ''2''"
  "digit_char 3 = CHR ''3''" "digit_char 4 = CHR ''4''" "digit_char 5 = CHR ''5''"
  "digit_char 6 = CHR ''6''" "digit_char 7 = CHR ''7''" "digit_char 8 = CHR ''8''"
  "digit_char 9 = CHR ''9''" "digit_char (Suc 0) = CHR ''1''"
  by code_simp+

lemmas patch_eval =
  patch_text_def file_text_def hunk_text_def hunk_head_def git_head_def line_text_def
  string_of_nat_digit digit_char_simps

lemma parse_example_header:
  "parseDiff example_diff_header =
     [\<lparr>oldPath = ''x'', newPath = ''x'',
       hunks = [\<lparr>oldStart = 1, oldCount = 1, newStart = 1, newCount = 1, header = '' h'',
                 lines = [\<lparr>content = ''a'', line_type = ''add''\<rparr>]\<rparr>],
       additions = 1, deletions = 0\<rparr>]"
  by (simp add: example_diff_header_def diff_eval)

lemma write_example_header:
  "patch_text (parseDiff example_diff_header)
     = ''diff --git a/x b/x\<newline>@@ -1,1 +1,1 @@  h\<newline>+a''"
  by (simp add: parse_example_header patch_eval)

lemma reparse_example_header:
  "parseDiff ''diff --git a/x b/x\<newline>@@ -1,1 +1,1 @@  h\<newline>+a'' =
     [\<lparr>oldPath = ''x'', newPath = ''x'',
       hunks = [\<lparr>oldStart = 1, oldCount = 1, newStart = 1, newCount = 1, header = ''  h'',
                 lines = [\<lparr>content = ''a'', line_type = ''add''\<rparr>]\<rparr>],
       additions = 1, deletions = 0\<rparr>]"
  by (simp add: diff_eval)

text \<open>
  C9, as stated, fails: a hunk header with text after the second \<open>@@\<close> is read with
  its leading blank and written with one more, so the second parse has a different
  header.
\<close>

theorem parseDiff_round_trip_fails:
  "parseDiff (patch_text (parseDiff example_diff_header)) \<noteq> parseDiff example_diff_header"
  unfolding write_example_header reparse_example_header
  by (simp add: parse_example_header)

lemma parse_example_plain:
  "parseDiff example_diff_plain =
     [\<lparr>oldPath = ''src/app.py'', newPath = ''src/app.py'',
       hunks = [\<lparr>oldStart = 3, oldCount = 2, newStart = 3, newCount = 2, header = [],
                 lines = [\<lparr>content = ''keep'', line_type = ''context''\<rparr>,
                          \<lparr>content = ''old'', line_type = ''del''\<rparr>,
                          \<lparr>content = ''new'', line_type = ''add''\<rparr>]\<rparr>],
       additions = 1, deletions = 1\<rparr>]"
  by (simp add: example_diff_plain_def diff_eval)

theorem parseDiff_round_trip_witness:
  "parseDiff example_diff_plain =
     [\<lparr>oldPath = ''src/app.py'', newPath = ''src/app.py'',
       hunks = [\<lparr>oldStart = 3, oldCount = 2, newStart = 3, newCount = 2, header = [],
                 lines = [\<lparr>content = ''keep'', line_type = ''context''\<rparr>,
                          \<lparr>content = ''old'', line_type = ''del''\<rparr>,
                          \<lparr>content = ''new'', line_type = ''add''\<rparr>]\<rparr>],
       additions = 1, deletions = 1\<rparr>]
   \<and> parseDiff (patch_text (parseDiff example_diff_plain)) = parseDiff example_diff_plain"
proof -
  have "\<forall>f \<in> set (parseDiff example_diff_plain). \<forall>h \<in> set (hunks f). plain_hunk h"
    by (simp add: parse_example_plain plain_hunk_def)
  from parseDiff_round_trip [OF this] parse_example_plain show ?thesis by simp
qed


text \<open>
  A hunk without lines does not survive either: the written text ends in a newline,
  and the empty last line is read as a context line.
\<close>

lemma parseDiff_round_trip_fails_empty_hunk:
  "parseDiff example_diff_empty_hunk =
     [\<lparr>oldPath = ''x'', newPath = ''x'',
       hunks = [\<lparr>oldStart = 1, oldCount = 1, newStart = 1, newCount = 1, header = [],
                 lines = []\<rparr>],
       additions = 0, deletions = 0\<rparr>]
   \<and> parseDiff (patch_text (parseDiff example_diff_empty_hunk)) =
     [\<lparr>oldPath = ''x'', newPath = ''x'',
       hunks = [\<lparr>oldStart = 1, oldCount = 1, newStart = 1, newCount = 1, header = [],
                 lines = [\<lparr>content = [], line_type = ''context''\<rparr>]\<rparr>],
       additions = 0, deletions = 0\<rparr>]"
proof -
  have p: "parseDiff example_diff_empty_hunk =
     [\<lparr>oldPath = ''x'', newPath = ''x'',
       hunks = [\<lparr>oldStart = 1, oldCount = 1, newStart = 1, newCount = 1, header = [],
                 lines = []\<rparr>],
       additions = 0, deletions = 0\<rparr>]"
    by (simp add: example_diff_empty_hunk_def diff_eval)
  have w: "patch_text (parseDiff example_diff_empty_hunk)
      = ''diff --git a/x b/x\<newline>@@ -1,1 +1,1 @@\<newline>''"
    by (simp add: p patch_eval)
  have r: "parseDiff ''diff --git a/x b/x\<newline>@@ -1,1 +1,1 @@\<newline>'' =
     [\<lparr>oldPath = ''x'', newPath = ''x'',
       hunks = [\<lparr>oldStart = 1, oldCount = 1, newStart = 1, newCount = 1, header = [],
                 lines = [\<lparr>content = [], line_type = ''context''\<rparr>]\<rparr>],
       additions = 0, deletions = 0\<rparr>]"
    by (simp add: diff_eval)
  show ?thesis
    unfolding w r using p by simp
qed

text \<open>
  handleDownload itself writes the diff text it was given whenever there is one, so
  what it saves for a parsed diff parses to the same files.
\<close>

lemma handleDownload_of_diffContent:
  "diffContent \<noteq> [] \<Longrightarrow>
   parseDiff (handleDownload_content diffContent (parseDiff diffContent)) = parseDiff diffContent"
  by (simp add: handleDownload_content_def)

end
